theory Spec2Isabelle
  imports Main "HOL-Library.Word"
begin

section \<open>Configuration nodes\<close>

text \<open>
  The parser of \<^verbatim>\<open>expression.h\<close> and the constructor of \<^verbatim>\<open>intersection.cpp\<close> consume
  \<^verbatim>\<open>YAML::Node\<close> values. A defined node is null, a scalar, a sequence or a map. Keys are
  looked up by string (\<^verbatim>\<open>node["All"]\<close>); a map is kept as an association list in document
  order, and the lookup returns the first entry with the key, as the linear scan of the
  library does.
\<close>

datatype yaml =
    Null
  | Scalar string
  | Sequence "yaml list"
  | Map "(string \<times> yaml) list"

text \<open>
  \<^verbatim>\<open>node[key]\<close> on a constant node: \<open>None\<close> stands for the node that converts to
  \<^verbatim>\<open>false\<close> in \<^verbatim>\<open>if (const auto n { node[key] })\<close>. Only maps are subscripted by the code
  modelled here.
\<close>

fun subscript :: "yaml \<Rightarrow> string \<Rightarrow> yaml option" where
  "subscript (Map kvs) key = map_of kvs key"
| "subscript _ key = None"

section \<open>Errors and observable events\<close>

text \<open>
  \<open>Missing_return\<close>: control reaches the closing brace of a function whose return type is
  not \<^verbatim>\<open>void\<close> without a \<^verbatim>\<open>return\<close> statement and without a \<^verbatim>\<open>throw\<close>. The language
  gives such a call no defined result, and no exception is raised.
  \<open>Bad_conversion\<close>: \<^verbatim>\<open>as<std::string>()\<close> on a node that is not a scalar throws.
\<close>

datatype error = Missing_return | Bad_conversion

text \<open>
  What the code prints or calls on the way: the \<^verbatim>\<open>ROS_ERROR_STREAM\<close> reports (with the
  value streamed into them), the writes to \<^verbatim>\<open>std::cout\<close>, and the calls of a plugin's
  \<^verbatim>\<open>configure\<close>.
\<close>

datatype event =
    Error_IsScalar yaml
  | Error_IsSequence yaml
  | Error_Failed_to_load string
  | Cout string
  | Configure string yaml

section \<open>Expressions\<close>

text \<open>
  An \<^verbatim>\<open>Expression\<close> object used as a value is a handle: its \<^verbatim>\<open>data\<close> pointer is null or
  points to a heap node of class \<^verbatim>\<open>Literal<bool>\<close> (\<^verbatim>\<open>Boolean\<close>), \<^verbatim>\<open>And\<close>, \<^verbatim>\<open>Or\<close> or
  \<^verbatim>\<open>Predicate\<close>. These are the only classes derived from \<^verbatim>\<open>Expression\<close> in the header;
  there is no \<^verbatim>\<open>Not\<close>, \<^verbatim>\<open>Action\<close>, \<^verbatim>\<open>Sequential\<close> or \<^verbatim>\<open>Parallel\<close> class. A
  \<^verbatim>\<open>Predicate\<close> node holds its plugin handle \<^verbatim>\<open>impl\<close>: \<open>None\<close> is the null pointer,
  \<open>Some d\<close> an instance of the class declared under the name \<open>d\<close>.

  Every node is built by a constructor that delegates to
  \<^verbatim>\<open>Expression(std::integral_constant<int, 0>)\<close>, which sets the node's own \<^verbatim>\<open>data\<close> to
  null; \<^verbatim>\<open>remake\<close> is applied to the fresh handle of \<^verbatim>\<open>make\<close> only, so the \<^verbatim>\<open>data\<close> field
  of a node stays null. This section abstracts from addresses (sharing is the subject of
  the heap model further down).
\<close>

datatype node =
    Boolean bool
  | And "expression list"
  | Or "expression list"
  | Predicate "string option"
and expression = Expression "node option"

text \<open>\<^verbatim>\<open>Expression::make<T>(xs...)\<close>: a handle to a new node.\<close>

definition Expression_make :: "node \<Rightarrow> expression" where
  "Expression_make n = Expression (Some n)"

text \<open>The default constructor \<^verbatim>\<open>Expression()\<close>: the handle with \<^verbatim>\<open>data == nullptr\<close>.\<close>

definition nil :: expression where
  "nil = Expression None"

subsection \<open>Evaluation\<close>

text \<open>
  \<^verbatim>\<open>virtual Expression evaluate() {}\<close> in class \<^verbatim>\<open>Expression\<close>: the body is empty. A handle
  has dynamic type \<^verbatim>\<open>Expression\<close> and does not forward to \<^verbatim>\<open>data->evaluate()\<close>.
\<close>

definition Expression_evaluate :: "error + expression" where
  "Expression_evaluate = Inl Missing_return"

text \<open>
  The overriders, by class of the node.
  \<^item> \<^verbatim>\<open>Literal::evaluate\<close> is \<^verbatim>\<open>return *this;\<close> with return type \<^verbatim>\<open>Expression\<close>: the copy
    constructor of \<^verbatim>\<open>Expression\<close> copies the \<^verbatim>\<open>data\<close> field of the node, which is null.
  \<^item> \<^verbatim>\<open>And::evaluate\<close> and \<^verbatim>\<open>Or::evaluate\<close> (one macro body) are
    \<^verbatim>\<open>return Expression::make<Boolean>(true);\<close>.
  \<^item> \<^verbatim>\<open>Procedure\<close> and \<^verbatim>\<open>Predicate\<close> do not override \<^verbatim>\<open>evaluate\<close>.
\<close>

fun node_evaluate :: "node \<Rightarrow> error + expression" where
  "node_evaluate (Boolean b) = Inr (Expression None)"
| "node_evaluate (And operands) = Inr (Expression_make (Boolean True))"
| "node_evaluate (Or operands) = Inr (Expression_make (Boolean True))"
| "node_evaluate (Predicate impl) = Expression_evaluate"

text \<open>\<^verbatim>\<open>e.evaluate()\<close> on a handle \<open>e\<close>.\<close>

definition evaluate :: "expression \<Rightarrow> error + expression" where
  "evaluate e = Expression_evaluate"

text \<open>
  The test of an expression (header comment: ``whether the return value of the expression
  is equal to false or not''): a value is truthy unless it is exactly the Boolean false.
\<close>

fun truthy :: "expression \<Rightarrow> bool" where
  "truthy (Expression (Some (Boolean False))) = False"
| "truthy _ = True"

section \<open>Plugin resolution\<close>

text \<open>
  The class loader of \<^verbatim>\<open>pluginlib\<close> is outside the repository: the list returned by
  \<^verbatim>\<open>loader().getDeclaredClasses()\<close> is a parameter.
\<close>

type_synonym plugin = "string option"

text \<open>
  \<^verbatim>\<open>Procedure::load(name)\<close>: the first declaration equal to \<open>name\<close> is instantiated;
  without one the failure is reported and the null pointer returned.
\<close>

fun load :: "string list \<Rightarrow> string \<Rightarrow> event list \<times> plugin" where
  "load [] name = ([Error_Failed_to_load name], None)"
| "load (declaration # rest) name =
     (if declaration = name then ([], Some declaration) else load rest name)"

text \<open>
  \<^verbatim>\<open>node.as<std::string>()\<close> of the YAML library: a scalar gives its text, a sequence or a
  map throws. (For a null node the result depends on the version of the library; it is
  taken to throw as well, and no property below depends on it.)
\<close>

fun as_string :: "yaml \<Rightarrow> error + string" where
  "as_string (Scalar s) = Inr s"
| "as_string _ = Inl Bad_conversion"

text \<open>\<^verbatim>\<open>Procedure::read\<close>, the base version of the virtual function: \<^verbatim>\<open>return { nullptr };\<close>.\<close>

definition Procedure_read :: "yaml \<Rightarrow> event list \<times> (error + plugin)" where
  "Procedure_read node = ([], Inr None)"

text \<open>\<^verbatim>\<open>Predicate::read\<close>, the overrider.\<close>

definition Predicate_read :: "string list \<Rightarrow> yaml \<Rightarrow> event list \<times> (error + plugin)" where
  "Predicate_read declarations node =
     (case subscript node ''Type'' of
        Some type \<Rightarrow>
          (case as_string type of
             Inl e \<Rightarrow> ([], Inl e)
           | Inr s \<Rightarrow> (let (log, impl) = load declarations (s @ ''Condition'') in (log, Inr impl)))
      | None \<Rightarrow>
          (let (log, impl) = load declarations ''(type unspecified)'' in (log, Inr impl)))"

text \<open>
  The constructor \<^verbatim>\<open>Procedure(const YAML::Node& node)\<close>, with the function that the call
  \<^verbatim>\<open>read(node)\<close> in its member initializer resolves to as the argument \<open>reader\<close>:
  \<^verbatim>\<open>impl { read(node) }\<close>, then \<^verbatim>\<open>if (impl) impl->configure(node, api);\<close>. The call of
  \<^verbatim>\<open>configure\<close> is recorded as an event; its flag is discarded by the constructor, and
  what a plugin does inside it is outside this model.
\<close>

definition Procedure_ctor ::
  "(yaml \<Rightarrow> event list \<times> (error + plugin)) \<Rightarrow> yaml \<Rightarrow> event list \<times> (error + plugin)" where
  "Procedure_ctor reader node =
     (case reader node of
        (log, Inl e) \<Rightarrow> (log, Inl e)
      | (log, Inr None) \<Rightarrow> (log, Inr None)
      | (log, Inr (Some d)) \<Rightarrow> (log @ [Configure d node], Inr (Some d)))"

text \<open>
  \<^verbatim>\<open>class Predicate\<close> declares no constructor of its own: \<^verbatim>\<open>using Procedure::Procedure;\<close>
  inherits the one above. A \<^verbatim>\<open>Predicate\<close> is therefore constructed by running the
  constructor of \<^verbatim>\<open>Procedure\<close> on the base-class part, and a virtual function called
  from a constructor on the object under construction runs the final overrider in the
  constructor's own class, not one of a more-derived class. The call \<^verbatim>\<open>read(node)\<close> in
  the member initializer is such a call: it runs \<^verbatim>\<open>Procedure::read\<close>.
\<close>

definition Predicate_ctor :: "string list \<Rightarrow> yaml \<Rightarrow> event list \<times> (error + node)" where
  "Predicate_ctor declarations node =
     (case Procedure_ctor Procedure_read node of
        (log, Inl e) \<Rightarrow> (log, Inl e)
      | (log, Inr impl) \<Rightarrow> (log, Inr (Predicate impl)))"

section \<open>The parser\<close>

text \<open>
  \<^verbatim>\<open>Expression read(const YAML::Node&)\<close> and the constructor
  \<^verbatim>\<open>NAME(const YAML::Node& node)\<close> of \<^verbatim>\<open>And\<close> and \<^verbatim>\<open>Or\<close>, whose loop
  \<^verbatim>\<open>for (const auto& each : node) { std::cout << " "; operands.push_back(read(each)); }\<close>
  is \<open>read_operands\<close>. The branches of \<^verbatim>\<open>read\<close> for a scalar, for a sequence, for a map
  with \<^verbatim>\<open>Type\<close> and \<^verbatim>\<open>Params\<close>, and for a map without \<^verbatim>\<open>All\<close>, \<^verbatim>\<open>Any\<close> and \<^verbatim>\<open>Type\<close> contain no
  \<^verbatim>\<open>return\<close> and no \<^verbatim>\<open>throw\<close>: control leaves the \<^verbatim>\<open>if\<close> chain and reaches the end of the
  function.
\<close>

text \<open>A value stored in a map is smaller than the map (for the termination of \<^verbatim>\<open>read\<close>).\<close>

lemma map_of_size:
  "map_of kvs k = Some v \<Longrightarrow> size v < Suc (size_list (size_prod (\<lambda>_. 0) size) kvs)"
  by (induction kvs) (auto split: if_splits)

function (sequential) read :: "string list \<Rightarrow> yaml \<Rightarrow> event list \<times> (error + expression)"
  and read_operands :: "string list \<Rightarrow> yaml list \<Rightarrow> event list \<times> (error + expression list)"
where
  "read ds (Scalar s) = ([Error_IsScalar (Scalar s)], Inl Missing_return)"
| "read ds (Sequence xs) = ([Error_IsSequence (Sequence xs)], Inl Missing_return)"
| "read ds (Map kvs) =
     (case map_of kvs ''All'' of
        Some node_and \<Rightarrow>
          (case node_and of
             Sequence xs \<Rightarrow>
               (case read_operands ds xs of
                  (log, Inl e) \<Rightarrow> (log, Inl e)
                | (log, Inr operands) \<Rightarrow> (log, Inr (Expression_make (And operands))))
           | _ \<Rightarrow> ([], Inr (Expression_make (And []))))
      | None \<Rightarrow>
     (case map_of kvs ''Any'' of
        Some node_or \<Rightarrow>
          (case node_or of
             Sequence xs \<Rightarrow>
               (case read_operands ds xs of
                  (log, Inl e) \<Rightarrow> (log, Inl e)
                | (log, Inr operands) \<Rightarrow> (log, Inr (Expression_make (Or operands))))
           | _ \<Rightarrow> ([], Inr (Expression_make (Or []))))
      | None \<Rightarrow>
     (case map_of kvs ''Type'' of
        Some node_type \<Rightarrow>
          (case map_of kvs ''Params'' of
             Some node_params \<Rightarrow> ([], Inl Missing_return)
           | None \<Rightarrow>
               (case Predicate_ctor ds (Map kvs) of
                  (log, Inl e) \<Rightarrow> (log, Inl e)
                | (log, Inr n) \<Rightarrow> (log, Inr (Expression_make n))))
      | None \<Rightarrow> ([Cout ''ERROR!''], Inl Missing_return))))"
| "read ds Null = ([], Inr nil)"
| "read_operands ds [] = ([], Inr [])"
| "read_operands ds (each # rest) =
     (case read ds each of
        (log, Inl e) \<Rightarrow> (Cout '' '' # log, Inl e)
      | (log, Inr operand) \<Rightarrow>
          (case read_operands ds rest of
             (log', Inl e) \<Rightarrow> (Cout '' '' # log @ log', Inl e)
           | (log', Inr operands) \<Rightarrow> (Cout '' '' # log @ log', Inr (operand # operands))))"
  by pat_completeness auto

termination
proof (relation "measure (\<lambda>x. case x of Inl (ds, n) \<Rightarrow> 2 * size n
                                       | Inr (ds, ns) \<Rightarrow> 2 * size_list size ns + 1)")
  show "wf (measure (\<lambda>x. case x of Inl (ds, n) \<Rightarrow> 2 * size n
                                  | Inr (ds, ns) \<Rightarrow> 2 * size_list size ns + 1))"
    by simp
next
  fix ds :: "string list" and kvs :: "(string \<times> yaml) list" and x2 x3
  assume "map_of kvs ''All'' = Some x2" and "x2 = Sequence x3"
  then show "(Inr (ds, x3), Inl (ds, Map kvs))
       \<in> measure (\<lambda>x. case x of Inl (ds, n) \<Rightarrow> 2 * size n
                               | Inr (ds, ns) \<Rightarrow> 2 * size_list size ns + 1)"
    using map_of_size [of kvs "''All''" "Sequence x3"] by simp
next
  fix ds :: "string list" and kvs :: "(string \<times> yaml) list" and x2 x3
  assume "map_of kvs ''All'' = None" and "map_of kvs ''Any'' = Some x2" and "x2 = Sequence x3"
  then show "(Inr (ds, x3), Inl (ds, Map kvs))
       \<in> measure (\<lambda>x. case x of Inl (ds, n) \<Rightarrow> 2 * size n
                               | Inr (ds, ns) \<Rightarrow> 2 * size_list size ns + 1)"
    using map_of_size [of kvs "''Any''" "Sequence x3"] by simp
qed auto

section \<open>Reference counting\<close>

text \<open>
  The heap model of \<^verbatim>\<open>class Expression\<close>: its copy constructor, destructor, assignment,
  \<^verbatim>\<open>swap\<close>, \<^verbatim>\<open>remake\<close> and \<^verbatim>\<open>make\<close>. A node lives at an address; \<^verbatim>\<open>new\<close> takes the next
  unused address and addresses are not reused, so a pointer that outlives its node is
  recognised as dangling for ever. A node is kept as its \<^verbatim>\<open>reference_count\<close>, a
  \<^verbatim>\<open>std::size_t\<close> (64 bits here; \<open>+\<close> and \<open>-\<close> wrap), and the \<^verbatim>\<open>data\<close> pointers of the
  \<^verbatim>\<open>Expression\<close> elements of its \<^verbatim>\<open>operands\<close> vector (empty for \<^verbatim>\<open>Boolean\<close> and
  \<^verbatim>\<open>Predicate\<close>); the node's own \<^verbatim>\<open>data\<close> is null, as said above.
\<close>

type_synonym addr = nat

record cell =
  reference_count :: "64 word"
  operands :: "addr option list"

text \<open>
  \<open>Dangling_pointer\<close>: a non-null \<^verbatim>\<open>data\<close> is dereferenced and no live node is there (a
  use after free; a second \<^verbatim>\<open>delete\<close> of a node would be one). \<open>Dead_handle\<close>: the client
  names an \<^verbatim>\<open>Expression\<close> variable that does not exist or was destroyed; no C++ program
  with defined behaviour does.
\<close>

datatype fault = Dead_handle | Dangling_pointer

text \<open>The heap is the list of its cells by address; \<open>None\<close> is a deleted node.\<close>

definition cell_at :: "cell option list \<Rightarrow> addr \<Rightarrow> cell option" where
  "cell_at h a = (if a < length h then h ! a else None)"

fun live_cells :: "cell option list \<Rightarrow> nat" where
  "live_cells [] = 0"
| "live_cells (None # h) = live_cells h"
| "live_cells (Some c # h) = Suc (live_cells h)"

lemma live_cells_delete:
  "cell_at h a = Some c \<Longrightarrow> live_cells (h[a := None]) < live_cells h"
proof (induction h arbitrary: a)
  case Nil then show ?case by (simp add: cell_at_def)
next
  case (Cons x h)
  then show ?case by (cases a; cases x) (auto simp: cell_at_def split: if_splits)
qed

lemma live_cells_update:
  "cell_at h a = Some c \<Longrightarrow> live_cells (h[a := Some c']) = live_cells h"
proof (induction h arbitrary: a)
  case Nil then show ?case by simp
next
  case (Cons x h)
  then show ?case by (cases a; cases x) (auto simp: cell_at_def split: if_splits)
qed

text \<open>
  The statement shared by the destructor and \<^verbatim>\<open>remake\<close>,
  \<^verbatim>\<open>if (data && --(data->reference_count) == 0) { delete data; }\<close>,
  applied to a list of pending pointers. \<^verbatim>\<open>delete data\<close> ends the life of the node, logs
  its address (the destructor prints ``deleting data'') and destroys its members: each
  element of \<^verbatim>\<open>operands\<close> runs the same statement on its own \<^verbatim>\<open>data\<close>, before the
  pointers that were pending. The arguments are the pending pointers, the heap and the
  log of deleted addresses, latest first.
\<close>

function release_all ::
  "addr option list \<Rightarrow> cell option list \<Rightarrow> addr list \<Rightarrow> fault + cell option list \<times> addr list" where
  "release_all [] h f = Inr (h, f)"
| "release_all (None # ps) h f = release_all ps h f"
| "release_all (Some a # ps) h f =
     (case cell_at h a of
        None \<Rightarrow> Inl Dangling_pointer
      | Some c \<Rightarrow>
          (if reference_count c - 1 = 0
           then release_all (operands c @ ps) (h[a := None]) (a # f)
           else release_all ps (h[a := Some (c\<lparr>reference_count := reference_count c - 1\<rparr>)]) f))"
  by pat_completeness auto
termination
  by (relation "measures [\<lambda>(ps, h, f). live_cells h, \<lambda>(ps, h, f). length ps]")
     (auto simp: live_cells_delete live_cells_update)

text \<open>
  The state of a client program: the heap, its \<^verbatim>\<open>Expression\<close> variables (handles) by
  number, and the log of deleted addresses. A handle is \<open>None\<close> once destroyed and
  \<open>Some data\<close> while alive; the \<^verbatim>\<open>reference_count\<close> field of a handle is 0 and never read.
\<close>

record heap_state =
  heap :: "cell option list"
  handles :: "addr option option list"
  freed :: "addr list"

definition initial :: heap_state where
  "initial = \<lparr>heap = [], handles = [], freed = []\<rparr>"

definition data_of :: "heap_state \<Rightarrow> nat \<Rightarrow> fault + addr option" where
  "data_of s x =
     (if x < length (handles s) then
        (case handles s ! x of None \<Rightarrow> Inl Dead_handle | Some p \<Rightarrow> Inr p)
      else Inl Dead_handle)"

text \<open>\<^verbatim>\<open>if (data) { ++(data->reference_count); }\<close>\<close>

fun increment :: "addr option \<Rightarrow> cell option list \<Rightarrow> fault + cell option list" where
  "increment None h = Inr h"
| "increment (Some a) h =
     (case cell_at h a of
        None \<Rightarrow> Inl Dangling_pointer
      | Some c \<Rightarrow> Inr (h[a := Some (c\<lparr>reference_count := reference_count c + 1\<rparr>)]))"

fun increment_all :: "addr option list \<Rightarrow> cell option list \<Rightarrow> fault + cell option list" where
  "increment_all [] h = Inr h"
| "increment_all (p # ps) h =
     (case increment p h of Inl e \<Rightarrow> Inl e | Inr h' \<Rightarrow> increment_all ps h')"

definition release :: "addr option \<Rightarrow> heap_state \<Rightarrow> fault + heap_state" where
  "release p s =
     (case release_all [p] (heap s) (freed s) of
        Inl e \<Rightarrow> Inl e
      | Inr (h, f) \<Rightarrow> Inr (s\<lparr>heap := h, freed := f\<rparr>))"

text \<open>\<^verbatim>\<open>Expression()\<close>: a new handle with \<^verbatim>\<open>data { nullptr }\<close>.\<close>

definition default_ctor :: "heap_state \<Rightarrow> heap_state" where
  "default_ctor s = s\<lparr>handles := handles s @ [Some None]\<rparr>"

text \<open>
  \<^verbatim>\<open>Expression(const Expression& expression)\<close>: a new handle with
  \<^verbatim>\<open>data { expression.data }\<close>, then the increment.
\<close>

definition copy_ctor :: "nat \<Rightarrow> heap_state \<Rightarrow> fault + heap_state" where
  "copy_ctor x s =
     (case data_of s x of
        Inl e \<Rightarrow> Inl e
      | Inr p \<Rightarrow>
          (case increment p (heap s) of
             Inl e \<Rightarrow> Inl e
           | Inr h \<Rightarrow> Inr (s\<lparr>heap := h, handles := handles s @ [Some p]\<rparr>)))"

text \<open>\<^verbatim>\<open>~Expression()\<close>: the release of \<^verbatim>\<open>data\<close>; the handle is gone afterwards.\<close>

definition dtor :: "nat \<Rightarrow> heap_state \<Rightarrow> fault + heap_state" where
  "dtor x s =
     (case data_of s x of
        Inl e \<Rightarrow> Inl e
      | Inr p \<Rightarrow>
          (case release p s of
             Inl e \<Rightarrow> Inl e
           | Inr s' \<Rightarrow> Inr (s'\<lparr>handles := (handles s')[x := None]\<rparr>)))"

text \<open>\<^verbatim>\<open>void swap(Expression& e)\<close>: \<^verbatim>\<open>std::swap(data, e.data)\<close>.\<close>

definition swap :: "nat \<Rightarrow> nat \<Rightarrow> heap_state \<Rightarrow> fault + heap_state" where
  "swap x y s =
     (case data_of s x of
        Inl e \<Rightarrow> Inl e
      | Inr p \<Rightarrow>
          (case data_of s y of
             Inl e \<Rightarrow> Inl e
           | Inr q \<Rightarrow> Inr (s\<lparr>handles := (handles s)[x := Some q, y := Some p]\<rparr>)))"

text \<open>
  \<^verbatim>\<open>operator =(const Expression& rhs)\<close>: \<^verbatim>\<open>Expression e { rhs }; swap(e); return *this;\<close>
  and the destructor of the local \<^verbatim>\<open>e\<close>, which is the handle numbered
  \<open>length (handles s)\<close>.
\<close>

definition assign :: "nat \<Rightarrow> nat \<Rightarrow> heap_state \<Rightarrow> fault + heap_state" where
  "assign x rhs s =
     (case data_of s x of
        Inl e \<Rightarrow> Inl e
      | Inr p \<Rightarrow>
          (case copy_ctor rhs s of
             Inl e \<Rightarrow> Inl e
           | Inr s1 \<Rightarrow>
               (case swap x (length (handles s)) s1 of
                  Inl e \<Rightarrow> Inl e
                | Inr s2 \<Rightarrow> dtor (length (handles s)) s2)))"

text \<open>\<^verbatim>\<open>void remake(Expression* e)\<close>: the release of the old \<^verbatim>\<open>data\<close>, then \<^verbatim>\<open>data = e\<close>.\<close>

definition remake :: "nat \<Rightarrow> addr \<Rightarrow> heap_state \<Rightarrow> fault + heap_state" where
  "remake x a s =
     (case data_of s x of
        Inl e \<Rightarrow> Inl e
      | Inr p \<Rightarrow>
          (case release p s of
             Inl e \<Rightarrow> Inl e
           | Inr s' \<Rightarrow> Inr (s'\<lparr>handles := (handles s')[x := Some (Some a)]\<rparr>)))"

fun data_of_all :: "heap_state \<Rightarrow> nat list \<Rightarrow> fault + addr option list" where
  "data_of_all s [] = Inr []"
| "data_of_all s (x # xs) =
     (case data_of s x of
        Inl e \<Rightarrow> Inl e
      | Inr p \<Rightarrow> (case data_of_all s xs of Inl e \<Rightarrow> Inl e | Inr ps \<Rightarrow> Inr (p # ps)))"

text \<open>
  \<^verbatim>\<open>new T { ... }\<close>: every constructor of a node starts it with \<^verbatim>\<open>reference_count { 1 }\<close>
  (\<^verbatim>\<open>Expression(std::integral_constant<int, 0>)\<close>). The \<^verbatim>\<open>operands\<close> of an \<^verbatim>\<open>And\<close> or \<^verbatim>\<open>Or\<close>
  are filled by \<^verbatim>\<open>operands.push_back(read(each))\<close> (and by copying the vector in the copy
  constructor): each element is copy-constructed from a handle, here the handles \<open>xs\<close>.
\<close>

definition new_node :: "nat list \<Rightarrow> heap_state \<Rightarrow> fault + addr \<times> heap_state" where
  "new_node xs s =
     (case data_of_all s xs of
        Inl e \<Rightarrow> Inl e
      | Inr ps \<Rightarrow>
          (case increment_all ps (heap s) of
             Inl e \<Rightarrow> Inl e
           | Inr h \<Rightarrow>
               Inr (length h, s\<lparr>heap := h @ [Some \<lparr>reference_count = 1, operands = ps\<rparr>]\<rparr>)))"

text \<open>
  \<^verbatim>\<open>Expression::make<T>(xs...)\<close>: \<^verbatim>\<open>Expression e {}; e.remake(new T { ... }); return e;\<close>
  with the local \<^verbatim>\<open>e\<close> constructed in place of the result. (Where the compiler copies
  \<^verbatim>\<open>e\<close> into the result instead, the copy constructor and the destructor of \<^verbatim>\<open>e\<close> run
  next: the operations \<open>Copy\<close> and \<open>Destroy\<close> below.)
\<close>

definition heap_make :: "nat list \<Rightarrow> heap_state \<Rightarrow> fault + heap_state" where
  "heap_make xs s =
     (case new_node xs s of
        Inl e \<Rightarrow> Inl e
      | Inr (a, s1) \<Rightarrow> remake (length (handles s1)) a (default_ctor s1))"

text \<open>The operations of a client on its handles, and a run of them from left to right.\<close>

datatype op = Default | Make "nat list" | Copy nat | Assign nat nat | Swap nat nat | Destroy nat

fun step :: "op \<Rightarrow> heap_state \<Rightarrow> fault + heap_state" where
  "step Default s = Inr (default_ctor s)"
| "step (Make xs) s = heap_make xs s"
| "step (Copy x) s = copy_ctor x s"
| "step (Assign x y) s = assign x y s"
| "step (Swap x y) s = swap x y s"
| "step (Destroy x) s = dtor x s"

fun run :: "op list \<Rightarrow> heap_state \<Rightarrow> fault + heap_state" where
  "run [] s = Inr s"
| "run (x # xs) s = (case step x s of Inl e \<Rightarrow> Inl e | Inr s' \<Rightarrow> run xs s')"

text \<open>
  The number of \<^verbatim>\<open>Expression\<close> objects an operation creates (handles and elements of
  \<^verbatim>\<open>operands\<close>). Every object occupies memory, so a program creates fewer than \<open>2 ^ 64\<close>
  of them.
\<close>

fun weight :: "op \<Rightarrow> nat" where
  "weight (Make xs) = Suc (length xs)"
| "weight Default = 1"
| "weight (Copy x) = 1"
| "weight (Assign x y) = 1"
| "weight (Swap x y) = 0"
| "weight (Destroy x) = 0"

subsection \<open>Counting the references\<close>

text \<open>
  The \<^verbatim>\<open>Expression\<close> objects that point to the node at \<open>a\<close>: the living handles and the
  elements of \<^verbatim>\<open>operands\<close> of the living nodes.
\<close>

fun handle_data :: "addr option option \<Rightarrow> addr option" where
  "handle_data None = None"
| "handle_data (Some p) = p"

fun cell_refs :: "addr \<Rightarrow> cell option \<Rightarrow> nat" where
  "cell_refs a None = 0"
| "cell_refs a (Some c) = count_list (operands c) (Some a)"

definition heap_refs :: "cell option list \<Rightarrow> addr \<Rightarrow> nat" where
  "heap_refs h a = sum_list (map (cell_refs a) h)"

definition references :: "heap_state \<Rightarrow> addr \<Rightarrow> nat" where
  "references s a = count_list (map handle_data (handles s)) (Some a) + heap_refs (heap s) a"

text \<open>
  The invariant, with the pointers \<open>X\<close> held outside the heap as a parameter (the
  handles, and the pointers still pending in \<open>release_all\<close>): a living node counts the
  pointers to it and has at least one; nothing points to a deleted node or beyond the
  heap. \<open>logged\<close>: the log holds the deleted nodes, each once.
\<close>

definition balanced :: "addr option list \<Rightarrow> cell option list \<Rightarrow> bool" where
  "balanced X h \<longleftrightarrow>
     (\<forall>a. (\<forall>c. cell_at h a = Some c \<longrightarrow>
               unat (reference_count c) = count_list X (Some a) + heap_refs h a
               \<and> reference_count c \<noteq> 0)
        \<and> (cell_at h a = None \<longrightarrow> count_list X (Some a) + heap_refs h a = 0))"

definition logged :: "cell option list \<Rightarrow> addr list \<Rightarrow> bool" where
  "logged h f \<longleftrightarrow> distinct f \<and> set f = {a. a < length h \<and> h ! a = None}"

definition counted :: "heap_state \<Rightarrow> bool" where
  "counted s \<longleftrightarrow> balanced (map handle_data (handles s)) (heap s) \<and> logged (heap s) (freed s)"

text \<open>An upper bound of every count: the number of pointer fields in the state.\<close>

fun cell_size :: "cell option \<Rightarrow> nat" where
  "cell_size None = 0"
| "cell_size (Some c) = length (operands c)"

definition heap_size :: "cell option list \<Rightarrow> nat" where
  "heap_size h = sum_list (map cell_size h)"

definition cap :: "heap_state \<Rightarrow> nat" where
  "cap s = length (handles s) + heap_size (heap s)"

definition ok_or_dead :: "fault + heap_state \<Rightarrow> nat \<Rightarrow> bool" where
  "ok_or_dead r k \<longleftrightarrow> r = Inl Dead_handle \<or> (\<exists>s'. r = Inr s' \<and> counted s' \<and> cap s' \<le> k)"

text \<open>
  The invariant as a client sees it, in terms of \<open>references\<close>: the count of a living
  node is the number of \<^verbatim>\<open>Expression\<close> objects that point to it, which is not zero, and
  the node is not in the log; nothing points to a deleted node, which is in the log
  exactly once; nothing beyond the heap is in the log.
\<close>

definition well_counted :: "heap_state \<Rightarrow> bool" where
  "well_counted s \<longleftrightarrow>
     (\<forall>a c. cell_at (heap s) a = Some c \<longrightarrow>
        unat (reference_count c) = references s a \<and> 0 < references s a \<and> a \<notin> set (freed s))
     \<and> (\<forall>a. cell_at (heap s) a = None \<longrightarrow> references s a = 0)
     \<and> (\<forall>a. a < length (heap s) \<longrightarrow> cell_at (heap s) a = None \<longrightarrow> count_list (freed s) a = 1)
     \<and> (\<forall>a. length (heap s) \<le> a \<longrightarrow> a \<notin> set (freed s))"

text \<open>
  What giving up one pointer to the node at \<open>a\<close> does, where \<open>c\<close> was the cell of the
  node before and \<open>s'\<close> is the state after: a node counted once is deleted, and is in
  the log once; any other node has its count lowered by one and is not deleted.
\<close>

definition given_up :: "cell \<Rightarrow> addr \<Rightarrow> heap_state \<Rightarrow> bool" where
  "given_up c a s' \<longleftrightarrow>
     (if reference_count c = 1
      then cell_at (heap s') a = None \<and> count_list (freed s') a = 1
      else cell_at (heap s') a = Some (c\<lparr>reference_count := reference_count c - 1\<rparr>)
           \<and> a \<notin> set (freed s'))"

text \<open>
  A sample client: a literal \<open>0\<close>; an \<^verbatim>\<open>And\<close> \<open>1\<close> over a copy of it; the temporary \<open>0\<close>
  destroyed; a copy \<open>2\<close> of \<open>1\<close>; an empty \<open>3\<close> assigned from \<open>1\<close> (the local of the
  assignment is \<open>4\<close>); \<open>1\<close> and \<open>2\<close> destroyed. Handle \<open>3\<close> is then the only one left.
\<close>

definition sample_run :: "op list" where
  "sample_run =
     [Make [], Make [0], Destroy 0, Copy 1, Default, Assign 3 1, Destroy 1, Destroy 2]"

definition sample_state :: heap_state where
  "sample_state =
     \<lparr>heap = [Some \<lparr>reference_count = 1, operands = []\<rparr>,
              Some \<lparr>reference_count = 1, operands = [Some 0]\<rparr>],
      handles = [None, None, None, Some (Some 1), None],
      freed = []\<rparr>"

section \<open>The intersection state machine\<close>

text \<open>
  \<^verbatim>\<open>class Intersection\<close> is declared in \<^verbatim>\<open>intersection.h\<close>, which is not among the sources;
  its members are named by \<^verbatim>\<open>intersection.cpp\<close>: \<^verbatim>\<open>script_\<close>, \<^verbatim>\<open>simulator_\<close>, \<^verbatim>\<open>ids_\<close>,
  \<^verbatim>\<open>change_to_\<close> and \<^verbatim>\<open>current_state_\<close>. The object behind the pointer \<^verbatim>\<open>simulator_\<close> is
  external: its state is passed to \<^verbatim>\<open>change_to\<close> and returned by it.

  The element type of \<^verbatim>\<open>change_to_\<close> (the controller of one state, built from a
  \<^verbatim>\<open>Control\<close> entry and called with \<^verbatim>\<open>*simulator_\<close>) is missing as well. It is the type
  parameter \<open>'c\<close>; its default-constructed value \<open>blank\<close> and its call operator \<open>call\<close>
  are parameters of \<^verbatim>\<open>change_to\<close>. The call acts on the simulator and returns a flag; the
  controller it is applied to is configuration data, which the call reads.

  The fields carry the prefix \<open>m_\<close> in place of the trailing underscore of the source.
\<close>

record 'c intersection =
  m_script :: yaml
  m_ids :: "nat list"
  m_change_to :: "string \<rightharpoonup> 'c"
  m_current_state :: string

text \<open>
  \<^verbatim>\<open>change_to_[key]\<close>. The constructor fills the container with
  \<^verbatim>\<open>change_to_.emplace(name, each)\<close> and \<^verbatim>\<open>change_to\<close> reads it with \<^verbatim>\<open>operator[]\<close> on a
  string key: the interface of the associative containers of the standard library, whose
  \<^verbatim>\<open>operator[]\<close> returns the element stored under the key and, when there is none, first
  inserts a value-initialised element under it. The comment in \<^verbatim>\<open>change_to\<close> relies on
  this: ``Any unspecified state names are treated as "Blank" state''.
\<close>

definition index_or_insert :: "'c \<Rightarrow> (string \<rightharpoonup> 'c) \<Rightarrow> string \<Rightarrow> 'c \<times> (string \<rightharpoonup> 'c)" where
  "index_or_insert blank m key =
     (case m key of
        Some controller \<Rightarrow> (controller, m)
      | None \<Rightarrow> (blank, m(key \<mapsto> blank)))"

text \<open>
  \<^verbatim>\<open>return change_to_[current_state_ = the_state](*simulator_);\<close>
  The result is the returned flag, the intersection after the call and the simulator
  after the call.
\<close>

definition change_to ::
  "'c \<Rightarrow> ('c \<Rightarrow> 'sim \<Rightarrow> bool \<times> 'sim) \<Rightarrow> string \<Rightarrow> 'c intersection \<Rightarrow> 'sim
     \<Rightarrow> bool \<times> 'c intersection \<times> 'sim" where
  "change_to blank call the_state i simulator =
     (let i1 = i\<lparr>m_current_state := the_state\<rparr>;
          (controller, m) = index_or_insert blank (m_change_to i1) (m_current_state i1);
          (result, simulator') = call controller simulator
      in (result, i1\<lparr>m_change_to := m\<rparr>, simulator'))"

text \<open>
  A sample controller type for concrete runs: a controller is the list of light colours
  it sets, the simulator is the list of colours applied so far, and the call succeeds.
\<close>

definition sample_call :: "string list \<Rightarrow> string list \<Rightarrow> bool \<times> string list" where
  "sample_call controller simulator = (True, simulator @ controller)"

definition sample_intersection :: "string list intersection" where
  "sample_intersection =
     \<lparr>m_script = Null, m_ids = [34806], m_change_to = map_of [(''Red'', [''red''])],
      m_current_state = []\<rparr>"

section \<open>Properties of the parser and of plugin resolution\<close>

subsection \<open>Auxiliary facts\<close>

text \<open>The dispatch of \<^verbatim>\<open>read\<close> on a map, branch by branch, in the order of the source.\<close>

lemma read_All_sequence:
  "map_of kvs ''All'' = Some (Sequence xs) \<Longrightarrow>
   read ds (Map kvs) =
     (case read_operands ds xs of
        (log, Inl e) \<Rightarrow> (log, Inl e)
      | (log, Inr vs) \<Rightarrow> (log, Inr (Expression_make (And vs))))"
  by simp

lemma read_Any_sequence:
  "map_of kvs ''All'' = None \<Longrightarrow> map_of kvs ''Any'' = Some (Sequence xs) \<Longrightarrow>
   read ds (Map kvs) =
     (case read_operands ds xs of
        (log, Inl e) \<Rightarrow> (log, Inl e)
      | (log, Inr vs) \<Rightarrow> (log, Inr (Expression_make (Or vs))))"
  by simp

lemma Predicate_ctor_null: "Predicate_ctor ds node = ([], Inr (Predicate None))"
  by (simp add: Predicate_ctor_def Procedure_ctor_def Procedure_read_def)

lemma read_Type_without_Params:
  "map_of kvs ''All'' = None \<Longrightarrow> map_of kvs ''Any'' = None \<Longrightarrow>
   map_of kvs ''Type'' = Some t \<Longrightarrow> map_of kvs ''Params'' = None \<Longrightarrow>
   read ds (Map kvs) = ([], Inr (Expression_make (Predicate None)))"
  by (simp add: Predicate_ctor_null)

lemma read_Type_with_Params:
  "map_of kvs ''All'' = None \<Longrightarrow> map_of kvs ''Any'' = None \<Longrightarrow>
   map_of kvs ''Type'' = Some t \<Longrightarrow> map_of kvs ''Params'' = Some p \<Longrightarrow>
   read ds (Map kvs) = ([], Inl Missing_return)"
  by simp

lemma read_no_known_key:
  "map_of kvs ''All'' = None \<Longrightarrow> map_of kvs ''Any'' = None \<Longrightarrow>
   map_of kvs ''Type'' = None \<Longrightarrow>
   read ds (Map kvs) = ([Cout ''ERROR!''], Inl Missing_return)"
  by simp

text \<open>\<^verbatim>\<open>load\<close> called on its own: an exact match, or the report and the null pointer.\<close>

lemma load_no_match:
  "name \<notin> set ds \<Longrightarrow> load ds name = ([Error_Failed_to_load name], None)"
  by (induction ds) auto

lemma load_match: "name \<in> set ds \<Longrightarrow> load ds name = ([], Some name)"
  by (induction ds) auto

text \<open>\<^verbatim>\<open>Predicate::read\<close> called on its own forms the key and hands it to \<^verbatim>\<open>load\<close>.\<close>

lemma Predicate_read_Type:
  "subscript node ''Type'' = Some (Scalar t) \<Longrightarrow>
   Predicate_read ds node = (fst (load ds (t @ ''Condition'')), Inr (snd (load ds (t @ ''Condition''))))"
  by (simp add: Predicate_read_def split: prod.splits)

lemma Predicate_read_no_Type:
  "subscript node ''Type'' = None \<Longrightarrow>
   Predicate_read ds node =
     (fst (load ds ''(type unspecified)''), Inr (snd (load ds ''(type unspecified)'')))"
  by (simp add: Predicate_read_def split: prod.splits)

text \<open>
  The constructor of \<^verbatim>\<open>Procedure\<close> calls \<^verbatim>\<open>configure\<close> exactly when its reader returned an
  instance.
\<close>

lemma Procedure_ctor_configures:
  "reader node = (log, Inr (Some d)) \<Longrightarrow>
   Procedure_ctor reader node = (log @ [Configure d node], Inr (Some d))"
  by (simp add: Procedure_ctor_def)

lemma Procedure_ctor_null:
  "reader node = (log, Inr None) \<Longrightarrow> Procedure_ctor reader node = (log, Inr None)"
  by (simp add: Procedure_ctor_def)

subsection \<open>Claims\<close>

text \<open>
  C1. The claim: an \<^verbatim>\<open>And\<close> node evaluates to true iff every child is truthy and an \<^verbatim>\<open>Or\<close>
  node iff some child is truthy; \<^verbatim>\<open>Or([])\<close> is false and \<^verbatim>\<open>And([true,true,false])\<close> is
  false. The code: \<^verbatim>\<open>Or\<close> over the empty sequence, as parsed from \<^verbatim>\<open>{Any: []}\<close>,
  evaluates to the Boolean true, and so does \<^verbatim>\<open>And\<close> over true, true, false: the body of
  \<^verbatim>\<open>evaluate\<close> generated by the macro never reads \<^verbatim>\<open>operands\<close> or \<^verbatim>\<open>compare\<close>, whatever
  the operands are. (Called on the handle that \<^verbatim>\<open>read\<close> returns, \<^verbatim>\<open>evaluate()\<close> does not
  reach the node at all: it runs the empty body of \<^verbatim>\<open>Expression::evaluate\<close>.)
\<close>

theorem evaluate_And_Or_constant_true:
  "node_evaluate (And xs) = Inr (Expression_make (Boolean True))
   \<and> node_evaluate (Or xs) = Inr (Expression_make (Boolean True))
   \<and> truthy (Expression_make (Boolean True))
   \<and> read ds (Map [(''Any'', Sequence [])]) = ([], Inr (Expression_make (Or [])))
   \<and> node_evaluate (Or []) = Inr (Expression_make (Boolean True))
   \<and> node_evaluate
        (And [Expression_make (Boolean True), Expression_make (Boolean True),
              Expression_make (Boolean False)])
       = Inr (Expression_make (Boolean True))
   \<and> evaluate (Expression_make (Or [])) = Inl Missing_return"
  by (simp add: Expression_make_def evaluate_def Expression_evaluate_def)

text \<open>
  C4. The claim: a map with \<^verbatim>\<open>Type\<close> and \<^verbatim>\<open>Params\<close> (and neither \<^verbatim>\<open>All\<close> nor \<^verbatim>\<open>Any\<close>) is
  read as an Action. The code: the branch commented \<^verbatim>\<open><action call>\<close> is empty, so
  \<^verbatim>\<open>read\<close> on \<^verbatim>\<open>{Type: AlwaysTrue, Params: {}}\<close> reaches the end of the function without
  returning a value; nothing is printed and no node is built.
\<close>

theorem read_action_call_no_return:
  "read ds (Map [(''Type'', Scalar ''AlwaysTrue''), (''Params'', Map [])])
     = ([], Inl Missing_return)"
  by simp

text \<open>
  C5. The claim: when no registered name equals the key \<^verbatim>\<open>Type + "Condition"\<close>,
  construction of the Predicate reports an error that names the key. The code: reading
  \<^verbatim>\<open>{Type: NoSuchThing}\<close> with \<^verbatim>\<open>AlwaysTrueCondition\<close> registered builds a Predicate with a
  null plugin and reports nothing, because the constructor runs \<^verbatim>\<open>Procedure::read\<close>;
  \<^verbatim>\<open>Predicate::read\<close>, called on its own on the same node, does report the key
  \<^verbatim>\<open>NoSuchThingCondition\<close>. For the same reason \<^verbatim>\<open>{Type: AlwaysTrue}\<close> is built with a
  null plugin too, although \<^verbatim>\<open>Predicate::read\<close> on its own finds the registered class.
\<close>

theorem Predicate_construction_skips_resolution:
  "read [''AlwaysTrueCondition''] (Map [(''Type'', Scalar ''NoSuchThing'')])
     = ([], Inr (Expression_make (Predicate None)))
   \<and> Predicate_read [''AlwaysTrueCondition''] (Map [(''Type'', Scalar ''NoSuchThing'')])
     = ([Error_Failed_to_load ''NoSuchThingCondition''], Inr None)
   \<and> read [''AlwaysTrueCondition''] (Map [(''Type'', Scalar ''AlwaysTrue'')])
     = ([], Inr (Expression_make (Predicate None)))
   \<and> Predicate_read [''AlwaysTrueCondition''] (Map [(''Type'', Scalar ''AlwaysTrue'')])
     = ([], Inr (Some ''AlwaysTrueCondition''))"
  by (simp add: Predicate_ctor_null Predicate_read_def)

text \<open>
  C6. The claim: a map without \<^verbatim>\<open>All\<close>, \<^verbatim>\<open>Any\<close> and \<^verbatim>\<open>Type\<close> makes \<^verbatim>\<open>read\<close> raise an
  error. The code: on \<^verbatim>\<open>{Foo: 1}\<close> it writes \<^verbatim>\<open>ERROR!\<close> to the standard output and then
  reaches the end of the function: nothing is thrown and nothing is returned.
\<close>

theorem read_unrecognized_map_no_return:
  "read ds (Map [(''Foo'', Scalar ''1'')]) = ([Cout ''ERROR!''], Inl Missing_return)"
  by simp

text \<open>
  C7. The claim: a scalar or a sequence given to \<^verbatim>\<open>read\<close> is rejected with an error. The
  code: it reports \<^verbatim>\<open>IsScalar\<close> or \<^verbatim>\<open>IsSequence\<close> with the node and then reaches the end of
  the function: nothing is thrown and nothing is returned, for every scalar and every
  sequence.
\<close>

theorem read_scalar_sequence_no_return:
  "read ds (Scalar s) = ([Error_IsScalar (Scalar s)], Inl Missing_return)
   \<and> read ds (Sequence xs) = ([Error_IsSequence (Sequence xs)], Inl Missing_return)"
  by simp

text \<open>
  C9. The claim: evaluating the result of \<^verbatim>\<open>evaluate()\<close> of a tree without procedures
  gives that result again. The code: the \<^verbatim>\<open>And\<close> over no operands evaluates to a handle
  to the Boolean true; \<^verbatim>\<open>evaluate()\<close> on that handle runs the empty body of
  \<^verbatim>\<open>Expression::evaluate\<close> and returns nothing, and \<^verbatim>\<open>Literal::evaluate\<close> on the node
  behind it returns the null handle, which is not the Boolean true.
\<close>

theorem evaluate_result_not_reevaluable:
  "node_evaluate (And []) = Inr (Expression_make (Boolean True))
   \<and> evaluate (Expression_make (Boolean True)) = Inl Missing_return
   \<and> node_evaluate (Boolean True) = Inr nil
   \<and> nil \<noteq> Expression_make (Boolean True)"
  by (simp add: Expression_make_def nil_def evaluate_def Expression_evaluate_def)

text \<open>
  C10. The claim: constructing a Predicate from a map without \<^verbatim>\<open>Type\<close> invokes the
  resolver with the name \<^verbatim>\<open>(type unspecified)\<close>. The code: the constructor does not run
  \<^verbatim>\<open>Predicate::read\<close>, so \<^verbatim>\<open>load\<close> is not called and the failure to load
  \<^verbatim>\<open>(type unspecified)\<close>, which \<^verbatim>\<open>Predicate::read\<close> reports when called on its own, is not
  reported; the plugin is null and \<^verbatim>\<open>configure\<close> is not called, here for \<^verbatim>\<open>{Name: x}\<close>.
\<close>

theorem Predicate_without_Type_skips_resolver:
  "Predicate_ctor [''AlwaysTrueCondition''] (Map [(''Name'', Scalar ''x'')])
     = ([], Inr (Predicate None))
   \<and> Predicate_read [''AlwaysTrueCondition''] (Map [(''Name'', Scalar ''x'')])
     = ([Error_Failed_to_load ''(type unspecified)''], Inr None)"
  by (simp add: Predicate_ctor_def Procedure_ctor_def Procedure_read_def Predicate_read_def)

section \<open>Properties of the intersection\<close>

text \<open>
  C2. For every state name \<open>s\<close>, key of the mapping or not, \<^verbatim>\<open>change_to(s)\<close> records \<open>s\<close>
  as the current state, calls the controller stored under \<open>s\<close>, or the default-constructed
  (blank) controller when there is none, on the simulator, and returns the flag of that
  call; the simulator is left as that call leaves it.
\<close>

theorem change_to_applies_payload:
  "fst (change_to blank call s i sim)
     = fst (call (case m_change_to i s of Some c \<Rightarrow> c | None \<Rightarrow> blank) sim)
   \<and> snd (snd (change_to blank call s i sim))
     = snd (call (case m_change_to i s of Some c \<Rightarrow> c | None \<Rightarrow> blank) sim)
   \<and> m_current_state (fst (snd (change_to blank call s i sim))) = s"
  by (simp add: change_to_def index_or_insert_def Let_def split: option.splits prod.splits)

text \<open>
  C8, as claimed: no call of \<^verbatim>\<open>change_to\<close> changes the set of keys of the mapping. It
  fails: on an intersection whose only state is \<^verbatim>\<open>Red\<close>, the call
  \<^verbatim>\<open>change_to("NameNotInControl")\<close> adds the key \<^verbatim>\<open>NameNotInControl\<close>.
\<close>

theorem change_to_inserts_unknown_state:
  "dom (m_change_to
          (fst (snd (change_to [] sample_call ''NameNotInControl'' sample_intersection []))))
     \<noteq> dom (m_change_to sample_intersection)"
  by (simp add: change_to_def index_or_insert_def Let_def sample_intersection_def
      sample_call_def)

text \<open>
  C8, amended: \<^verbatim>\<open>change_to(s)\<close> leaves the script and the identifiers unchanged, sets the
  current state to \<open>s\<close>, and leaves the mapping unchanged when \<open>s\<close> is one of its keys;
  when \<open>s\<close> is not a key it adds \<open>s\<close> with the blank controller and changes nothing else
  in the mapping. So no key is removed, no stored controller is changed, and the keys
  after the call are the keys before it together with \<open>s\<close>.
\<close>

theorem change_to_frame:
  "m_script (fst (snd (change_to blank call s i sim))) = m_script i
   \<and> m_ids (fst (snd (change_to blank call s i sim))) = m_ids i
   \<and> m_current_state (fst (snd (change_to blank call s i sim))) = s
   \<and> m_change_to (fst (snd (change_to blank call s i sim)))
       = (case m_change_to i s of
            Some c \<Rightarrow> m_change_to i
          | None \<Rightarrow> (m_change_to i)(s \<mapsto> blank))
   \<and> dom (m_change_to (fst (snd (change_to blank call s i sim)))) = insert s (dom (m_change_to i))"
  by (auto simp: change_to_def index_or_insert_def Let_def split: option.splits prod.splits)

section \<open>Properties of the reference count\<close>

subsection \<open>Lists, words and the heap\<close>

lemma sum_list_map_update:
  fixes g :: "'a \<Rightarrow> nat"
  shows "i < length xs \<Longrightarrow> sum_list (map g (xs[i := y])) + g (xs ! i) = sum_list (map g xs) + g y"
proof (induction xs arbitrary: i)
  case Nil then show ?case by simp
next
  case (Cons x xs) then show ?case by (cases i) auto
qed

lemma heap_refs_update:
  "cell_at h a = Some c \<Longrightarrow> heap_refs (h[a := co]) b + cell_refs b (Some c) = heap_refs h b + cell_refs b co"
  unfolding heap_refs_def cell_at_def
  using sum_list_map_update [of a h "cell_refs b" co] by (auto split: if_splits)

lemma heap_size_update:
  "cell_at h a = Some c \<Longrightarrow> heap_size (h[a := co]) + cell_size (Some c) = heap_size h + cell_size co"
  unfolding heap_size_def cell_at_def
  using sum_list_map_update [of a h cell_size co] by (auto split: if_splits)

lemma cell_at_update:
  "cell_at h a = Some c \<Longrightarrow> cell_at (h[a := co]) b = (if b = a then co else cell_at h b)"
  by (auto simp: cell_at_def split: if_splits)

lemma word_pred_zero: "(w :: 64 word) - 1 = 0 \<longleftrightarrow> unat w = 1"
proof
  assume "w - 1 = 0"
  then have "w = 1" by simp
  then show "unat w = 1" by simp
next
  assume "unat w = 1"
  then have "unat w = unat (1 :: 64 word)" by simp
  then have "w = 1" by (simp only: word_unat_eq_iff)
  then show "w - 1 = 0" by simp
qed

lemma word_succ_unat: "unat (w :: 64 word) + 1 < 2 ^ 64 \<Longrightarrow> unat (w + 1) = unat w + 1"
  by (simp add: unat_add_lem [THEN iffD1])

lemma balanced_cong:
  "(\<And>a. count_list X (Some a) = count_list Y (Some a)) \<Longrightarrow> balanced X h = balanced Y h"
  by (simp add: balanced_def)

lemma word_pred_unat: "(w :: 64 word) \<noteq> 0 \<Longrightarrow> unat (w - 1) = unat w - 1"
  by (simp add: unat_minus_one)

lemma balanced_live:
  "balanced X h \<Longrightarrow> cell_at h a = Some c \<Longrightarrow>
   unat (reference_count c) = count_list X (Some a) + heap_refs h a \<and> reference_count c \<noteq> 0"
  by (simp add: balanced_def)

lemma balanced_dead:
  "balanced X h \<Longrightarrow> cell_at h a = None \<Longrightarrow> count_list X (Some a) = 0 \<and> heap_refs h a = 0"
  by (simp add: balanced_def)

lemma balanced_target:
  assumes "balanced X h" and "count_list X (Some a) \<noteq> 0"
  obtains c where "cell_at h a = Some c"
  using assms balanced_dead [of X h a] by (cases "cell_at h a") auto

lemma balancedI:
  assumes "\<And>a c. cell_at h a = Some c \<Longrightarrow>
             unat (reference_count c) = count_list X (Some a) + heap_refs h a \<and> reference_count c \<noteq> 0"
    and "\<And>a. cell_at h a = None \<Longrightarrow> count_list X (Some a) + heap_refs h a = 0"
  shows "balanced X h"
  using assms by (simp add: balanced_def)

lemma logged_delete:
  assumes "logged h f" and "a < length h" and "h ! a = Some c"
  shows "logged (h[a := None]) (a # f)"
proof -
  have "{b. b < length h \<and> (h[a := None]) ! b = None} = insert a {b. b < length h \<and> h ! b = None}"
    using assms(2) by (auto simp: nth_list_update)
  moreover have "a \<notin> set f" using assms by (simp add: logged_def)
  ultimately show ?thesis using assms(1) by (simp add: logged_def)
qed

lemma logged_update:
  assumes "logged h f" and "a < length h" and "h ! a = Some c"
  shows "logged (h[a := Some c']) f"
proof -
  have "{b. b < length h \<and> (h[a := Some c']) ! b = None} = {b. b < length h \<and> h ! b = None}"
    using assms(2,3) by (auto simp: nth_list_update)
  then show ?thesis using assms(1) by (simp add: logged_def)
qed

lemma release_all_balanced:
  "balanced (ps @ X) h \<Longrightarrow> logged h f \<Longrightarrow>
   \<exists>h' f'. release_all ps h f = Inr (h', f') \<and> balanced X h' \<and> logged h' f'
      \<and> length h' = length h \<and> heap_size h' \<le> heap_size h"
proof (induction ps h f rule: release_all.induct)
  case (1 h f)
  then show ?case by simp
next
  case (2 ps h f)
  have "balanced (ps @ X) h"
    using "2.prems"(1) balanced_cong [of "(None # ps) @ X" "ps @ X" h] by simp
  from "2.IH" [OF this "2.prems"(2)] show ?case by simp
next
  case (3 a ps h f)
  note bal = "3.prems"(1)
  obtain c where c: "cell_at h a = Some c"
    using balanced_target [OF bal, of a] by auto
  have rc: "unat (reference_count c) = Suc (count_list (ps @ X) (Some a) + heap_refs h a)"
    and nz: "reference_count c \<noteq> 0"
    using balanced_live [OF bal c] by auto
  have alen: "a < length h" and ha: "h ! a = Some c"
    using c by (auto simp: cell_at_def split: if_splits)
  show ?case
  proof (cases "reference_count c - 1 = 0")
    case True
    then have one: "unat (reference_count c) = 1" by (simp add: word_pred_zero)
    then have zero: "count_list (ps @ X) (Some a) = 0" "heap_refs h a = 0" using rc by auto
    let ?h = "h[a := None]"
    have hr: "\<And>b. heap_refs ?h b + count_list (operands c) (Some b) = heap_refs h b"
      using heap_refs_update [OF c, of None] by simp
    have "balanced ((operands c @ ps) @ X) ?h"
    proof (rule balancedI)
      fix b c' assume b: "cell_at ?h b = Some c'"
      then have ne: "b \<noteq> a" and b': "cell_at h b = Some c'"
        by (auto simp: cell_at_update [OF c] split: if_splits)
      show "unat (reference_count c') = count_list ((operands c @ ps) @ X) (Some b) + heap_refs ?h b
              \<and> reference_count c' \<noteq> 0"
        using balanced_live [OF bal b'] ne hr [of b] by simp
    next
      fix b assume b: "cell_at ?h b = None"
      show "count_list ((operands c @ ps) @ X) (Some b) + heap_refs ?h b = 0"
      proof (cases "b = a")
        case True
        then show ?thesis using zero hr [of a] by simp
      next
        case False
        then have "cell_at h b = None" using b by (simp add: cell_at_update [OF c])
        from balanced_dead [OF bal this] show ?thesis using False hr [of b] by simp
      qed
    qed
    moreover have "logged ?h (a # f)"
      using "3.prems"(2) alen ha by (rule logged_delete)
    ultimately obtain h' f' where
      r: "release_all (operands c @ ps) ?h (a # f) = Inr (h', f')" "balanced X h'" "logged h' f'"
         "length h' = length ?h" "heap_size h' \<le> heap_size ?h"
      using "3.IH"(1) [OF c True] by blast
    have "heap_size ?h \<le> heap_size h" using heap_size_update [OF c, of None] by simp
    then show ?thesis using r c True by simp
  next
    case False
    let ?c = "c\<lparr>reference_count := reference_count c - 1\<rparr>"
    let ?h = "h[a := Some ?c]"
    have hr: "\<And>b. heap_refs ?h b = heap_refs h b"
      using heap_refs_update [OF c, of "Some ?c"] by simp
    have "balanced (ps @ X) ?h"
    proof (rule balancedI)
      fix b c' assume b: "cell_at ?h b = Some c'"
      show "unat (reference_count c') = count_list (ps @ X) (Some b) + heap_refs ?h b
              \<and> reference_count c' \<noteq> 0"
      proof (cases "b = a")
        case True
        then have "c' = ?c" using b by (simp add: cell_at_update [OF c])
        then show ?thesis using True rc nz False by (simp add: hr word_pred_unat)
      next
        case ne: False
        then have "cell_at h b = Some c'" using b by (simp add: cell_at_update [OF c])
        from balanced_live [OF bal this] show ?thesis using ne by (simp add: hr)
      qed
    next
      fix b assume b: "cell_at ?h b = None"
      then have ne: "b \<noteq> a" and "cell_at h b = None"
        by (auto simp: cell_at_update [OF c] split: if_splits)
      from balanced_dead [OF bal this(2)] show "count_list (ps @ X) (Some b) + heap_refs ?h b = 0"
        using ne by (simp add: hr)
    qed
    moreover have "logged ?h f"
      using "3.prems"(2) alen ha by (rule logged_update)
    ultimately obtain h' f' where
      r: "release_all ps ?h f = Inr (h', f')" "balanced X h'" "logged h' f'"
         "length h' = length ?h" "heap_size h' \<le> heap_size ?h"
      using "3.IH"(2) [OF c False] by blast
    have "heap_size ?h = heap_size h" using heap_size_update [OF c, of "Some ?c"] by simp
    then show ?thesis using r c False by simp
  qed
qed

lemma count_list_update:
  "i < length xs \<Longrightarrow>
   count_list (xs[i := y]) v + (if xs ! i = v then 1 else 0) = count_list xs v + (if y = v then 1 else 0)"
proof (induction xs arbitrary: i)
  case Nil then show ?case by simp
next
  case (Cons x xs)
  show ?case
  proof (cases i)
    case 0
    then show ?thesis by simp
  next
    case (Suc j)
    then have "j < length xs" using Cons.prems by simp
    from Cons.IH [OF this] show ?thesis using Suc by (auto split: if_splits)
  qed
qed

lemma cell_refs_le: "cell_refs a co \<le> cell_size co"
  by (cases co) (auto simp: count_le_length)

lemma heap_refs_le: "heap_refs h a \<le> heap_size h"
  unfolding heap_refs_def heap_size_def
  by (induction h) (auto intro: add_mono cell_refs_le)

lemma balanced_bound:
  "balanced X h \<Longrightarrow> cell_at h a = Some c \<Longrightarrow> unat (reference_count c) \<le> length X + heap_size h"
  using balanced_live [of X h a c] heap_refs_le [of h a] count_le_length [of X "Some a"]
  by simp

lemma data_of_Inr:
  "data_of s x = Inr p \<longleftrightarrow> x < length (handles s) \<and> handles s ! x = Some p"
  by (auto simp: data_of_def split: option.splits)

lemma data_of_cases:
  obtains "data_of s x = Inl Dead_handle" | p where "data_of s x = Inr p"
  by (cases "x < length (handles s)"; cases "handles s ! x") (auto simp: data_of_def)

lemma data_of_count:
  "data_of s x = Inr (Some a) \<Longrightarrow> count_list (map handle_data (handles s)) (Some a) \<noteq> 0"
proof -
  assume "data_of s x = Inr (Some a)"
  then have "x < length (handles s)" "handles s ! x = Some (Some a)" by (auto simp: data_of_Inr)
  then have "Some a \<in> set (map handle_data (handles s))"
    by (metis handle_data.simps(2) length_map nth_map nth_mem)
  then show ?thesis by (simp add: count_list_0_iff)
qed

lemma increment_balanced:
  assumes bal: "balanced X h" and lg: "logged h f"
    and tgt: "\<And>a. p = Some a \<Longrightarrow> count_list X (Some a) \<noteq> 0"
    and bound: "length X + heap_size h + 1 < 2 ^ 64"
  shows "\<exists>h'. increment p h = Inr h' \<and> balanced (p # X) h' \<and> logged h' f
           \<and> length h' = length h \<and> heap_size h' = heap_size h"
proof (cases p)
  case None
  then show ?thesis using bal lg balanced_cong [of "None # X" X h] by simp
next
  case (Some a)
  obtain c where c: "cell_at h a = Some c"
    using balanced_target [OF bal tgt [OF Some]] by auto
  have alen: "a < length h" and ha: "h ! a = Some c"
    using c by (auto simp: cell_at_def split: if_splits)
  let ?c = "c\<lparr>reference_count := reference_count c + 1\<rparr>"
  let ?h = "h[a := Some ?c]"
  have hr: "\<And>b. heap_refs ?h b = heap_refs h b"
    using heap_refs_update [OF c, of "Some ?c"] by simp
  have small: "unat (reference_count c) + 1 < 2 ^ 64"
    using balanced_bound [OF bal c] bound by simp
  have up: "unat (reference_count c + 1) = unat (reference_count c) + 1"
    using small by (rule word_succ_unat)
  then have nz: "reference_count c + 1 \<noteq> 0" by (metis add_is_0 unat_0 zero_neq_one)
  have "balanced (p # X) ?h"
  proof (rule balancedI)
    fix b c' assume b: "cell_at ?h b = Some c'"
    show "unat (reference_count c') = count_list (p # X) (Some b) + heap_refs ?h b
            \<and> reference_count c' \<noteq> 0"
    proof (cases "b = a")
      case True
      then have "c' = ?c" using b by (simp add: cell_at_update [OF c])
      then show ?thesis using True balanced_live [OF bal c] up nz Some by (simp add: hr)
    next
      case ne: False
      then have "cell_at h b = Some c'" using b by (simp add: cell_at_update [OF c])
      from balanced_live [OF bal this] show ?thesis using ne Some by (simp add: hr)
    qed
  next
    fix b assume b: "cell_at ?h b = None"
    then have ne: "b \<noteq> a" and "cell_at h b = None"
      by (auto simp: cell_at_update [OF c] split: if_splits)
    from balanced_dead [OF bal this(2)] show "count_list (p # X) (Some b) + heap_refs ?h b = 0"
      using ne Some by (simp add: hr)
  qed
  moreover have "logged ?h f" using lg alen ha by (rule logged_update)
  moreover have "heap_size ?h = heap_size h" using heap_size_update [OF c, of "Some ?c"] by simp
  ultimately show ?thesis using Some c by simp
qed

lemma increment_all_balanced:
  assumes "balanced X h" and "logged h f"
    and "\<And>a. Some a \<in> set ps \<Longrightarrow> count_list X (Some a) \<noteq> 0"
    and "length X + length ps + heap_size h < 2 ^ 64"
  shows "\<exists>h'. increment_all ps h = Inr h' \<and> balanced (ps @ X) h' \<and> logged h' f
           \<and> length h' = length h \<and> heap_size h' = heap_size h"
  using assms
proof (induction ps arbitrary: X h)
  case Nil
  then show ?case by simp
next
  case (Cons p ps)
  have "\<exists>h'. increment p h = Inr h' \<and> balanced (p # X) h' \<and> logged h' f
           \<and> length h' = length h \<and> heap_size h' = heap_size h"
    using Cons.prems by (intro increment_balanced) auto
  then obtain h1 where h1: "increment p h = Inr h1" "balanced (p # X) h1" "logged h1 f"
      "length h1 = length h" "heap_size h1 = heap_size h"
    by blast
  have "\<exists>h'. increment_all ps h1 = Inr h' \<and> balanced (ps @ p # X) h' \<and> logged h' f
           \<and> length h' = length h1 \<and> heap_size h' = heap_size h1"
  proof (rule Cons.IH [OF h1(2,3)])
    fix a assume "Some a \<in> set ps"
    then have "count_list X (Some a) \<noteq> 0" using Cons.prems(3) by simp
    then show "count_list (p # X) (Some a) \<noteq> 0" by simp
  next
    show "length (p # X) + length ps + heap_size h1 < 2 ^ 64"
      using Cons.prems(4) h1(5) by simp
  qed
  then obtain h' where h': "increment_all ps h1 = Inr h'" "balanced (ps @ p # X) h'" "logged h' f"
      "length h' = length h1" "heap_size h' = heap_size h1"
    by blast
  have "balanced ((p # ps) @ X) h'"
    using h'(2) balanced_cong [of "(p # ps) @ X" "ps @ p # X" h'] by simp
  then show ?case using h1 h' by simp
qed

lemma ok_or_deadI:
  "r = Inr s' \<Longrightarrow> counted s' \<Longrightarrow> cap s' \<le> k \<Longrightarrow> ok_or_dead r k"
  by (simp add: ok_or_dead_def)

lemma ok_or_dead_mono: "ok_or_dead r k \<Longrightarrow> k \<le> k' \<Longrightarrow> ok_or_dead r k'"
  by (auto simp: ok_or_dead_def)

lemma default_ctor_ok:
  assumes "counted s"
  shows "counted (default_ctor s)" and "cap (default_ctor s) = cap s + 1"
proof -
  have "balanced (map handle_data (handles s) @ [None]) (heap s)"
    using assms balanced_cong [of "map handle_data (handles s) @ [None]" "map handle_data (handles s)" "heap s"]
    by (simp add: counted_def)
  then show "counted (default_ctor s)" using assms by (simp add: counted_def default_ctor_def)
  show "cap (default_ctor s) = cap s + 1" by (simp add: cap_def default_ctor_def)
qed

lemma copy_ctor_ok:
  assumes cnt: "counted s" and bound: "cap s + 1 < 2 ^ 64"
  shows "ok_or_dead (copy_ctor x s) (cap s + 1)"
proof (cases rule: data_of_cases [of s x])
  case 1
  then show ?thesis by (simp add: copy_ctor_def ok_or_dead_def)
next
  case (2 p)
  let ?X = "map handle_data (handles s)"
  have bal: "balanced ?X (heap s)" and lg: "logged (heap s) (freed s)"
    using cnt by (simp_all add: counted_def)
  have "\<exists>h'. increment p (heap s) = Inr h' \<and> balanced (p # ?X) h' \<and> logged h' (freed s)
           \<and> length h' = length (heap s) \<and> heap_size h' = heap_size (heap s)"
  proof (rule increment_balanced [OF bal lg])
    fix a assume "p = Some a"
    then show "count_list ?X (Some a) \<noteq> 0" using 2 data_of_count by simp
  next
    show "length ?X + heap_size (heap s) + 1 < 2 ^ 64" using bound by (simp add: cap_def)
  qed
  then obtain h' where h': "increment p (heap s) = Inr h'" "balanced (p # ?X) h'"
      "logged h' (freed s)" "heap_size h' = heap_size (heap s)"
    by blast
  let ?s = "s\<lparr>heap := h', handles := handles s @ [Some p]\<rparr>"
  have "balanced (?X @ [p]) h'"
    using h'(2) balanced_cong [of "?X @ [p]" "p # ?X" h'] by simp
  then have "counted ?s" using h'(3) by (simp add: counted_def)
  moreover have "cap ?s \<le> cap s + 1" using h'(4) by (simp add: cap_def)
  moreover have "copy_ctor x s = Inr ?s" using 2 h'(1) by (simp add: copy_ctor_def)
  ultimately show ?thesis by (simp add: ok_or_dead_def)
qed

lemma release_ok:
  assumes "balanced (p # X) (heap s)" and "logged (heap s) (freed s)"
  shows "\<exists>s'. release p s = Inr s' \<and> balanced X (heap s') \<and> logged (heap s') (freed s')
            \<and> handles s' = handles s \<and> heap_size (heap s') \<le> heap_size (heap s)"
proof -
  from release_all_balanced [of "[p]" X "heap s" "freed s"] assms
  obtain h' f' where "release_all [p] (heap s) (freed s) = Inr (h', f')" "balanced X h'"
      "logged h' f'" "heap_size h' \<le> heap_size (heap s)"
    by auto
  then show ?thesis by (simp add: release_def)
qed

lemma handle_data_update:
  "map handle_data (hs[x := v]) = (map handle_data hs)[x := handle_data v]"
  by (simp add: map_update)

lemma count_list_replace:
  assumes "x < length X" and "X ! x = p"
  shows "count_list (p # X[x := q]) v = count_list (q # X) v"
  using count_list_update [OF assms(1), of q v] assms(2) by (auto split: if_splits)

lemma handle_nth:
  "data_of s x = Inr p \<Longrightarrow> x < length (map handle_data (handles s)) \<and> map handle_data (handles s) ! x = p"
  by (simp add: data_of_Inr)

lemma balanced_detach:
  assumes "balanced X h" and "x < length X" and "X ! x = p"
  shows "balanced (p # X[x := None]) h"
proof -
  have "balanced (p # X[x := None]) h = balanced (None # X) h"
    using count_list_replace [OF assms(2,3), of None] by (intro balanced_cong) simp
  also have "\<dots> = balanced X h"
    by (intro balanced_cong) simp
  finally show ?thesis using assms(1) by simp
qed

lemma dtor_ok:
  assumes cnt: "counted s"
  shows "ok_or_dead (dtor x s) (cap s)"
proof (cases rule: data_of_cases [of s x])
  case 1
  then show ?thesis by (simp add: dtor_def ok_or_dead_def)
next
  case (2 p)
  let ?X = "map handle_data (handles s)"
  have bal: "balanced ?X (heap s)" and lg: "logged (heap s) (freed s)"
    using cnt by (simp_all add: counted_def)
  have "x < length ?X" and "?X ! x = p"
    using handle_nth [OF 2] by auto
  then have "balanced (p # ?X[x := None]) (heap s)"
    by (rule balanced_detach [OF bal])
  from release_ok [OF this lg] obtain s' where
    s': "release p s = Inr s'" "balanced (?X[x := None]) (heap s')" "logged (heap s') (freed s')"
        "handles s' = handles s" "heap_size (heap s') \<le> heap_size (heap s)"
    by blast
  let ?s = "s'\<lparr>handles := (handles s')[x := None]\<rparr>"
  have "counted ?s" using s'(2,3,4) by (simp add: counted_def handle_data_update)
  moreover have "cap ?s \<le> cap s" using s'(4,5) by (simp add: cap_def)
  moreover have "dtor x s = Inr ?s" using 2 s'(1) by (simp add: dtor_def)
  ultimately show ?thesis by (simp add: ok_or_dead_def)
qed

lemma swap_ok:
  assumes cnt: "counted s"
  shows "ok_or_dead (swap x y s) (cap s)"
proof (cases rule: data_of_cases [of s x])
  case 1
  then show ?thesis by (simp add: swap_def ok_or_dead_def)
next
  case x: (2 p)
  show ?thesis
  proof (cases rule: data_of_cases [of s y])
    case 1
    then show ?thesis using x by (simp add: swap_def ok_or_dead_def)
  next
    case y: (2 q)
    let ?X = "map handle_data (handles s)"
    have bal: "balanced ?X (heap s)" and lg: "logged (heap s) (freed s)"
      using cnt by (simp_all add: counted_def)
    have xl: "x < length ?X" "?X ! x = p" and yl: "y < length ?X" "?X ! y = q"
      using handle_nth [OF x] handle_nth [OF y] by auto
    have same: "count_list (?X[x := q, y := p]) v = count_list ?X v" for v
    proof -
      have 1: "count_list (?X[x := q]) v + (if p = v then 1 else 0)
                 = count_list ?X v + (if q = v then 1 else 0)"
        using count_list_update [OF xl(1), of q v] xl(2) by simp
      have "y < length (?X[x := q])" using yl(1) by simp
      from count_list_update [OF this, of p v]
      have 2: "count_list (?X[x := q, y := p]) v + (if (?X[x := q]) ! y = v then 1 else 0)
                 = count_list (?X[x := q]) v + (if p = v then 1 else 0)" .
      have 3: "(?X[x := q]) ! y = q" using xl yl by (cases "x = y") auto
      show ?thesis using 1 2 3 by (auto split: if_splits)
    qed
    let ?s = "s\<lparr>handles := (handles s)[x := Some q, y := Some p]\<rparr>"
    have "balanced (?X[x := q, y := p]) (heap s)"
      using bal balanced_cong [of "?X[x := q, y := p]" ?X "heap s"] same by simp
    then have "counted ?s" using lg by (simp add: counted_def handle_data_update)
    moreover have "cap ?s \<le> cap s" by (simp add: cap_def)
    moreover have "swap x y s = Inr ?s" using x y by (simp add: swap_def)
    ultimately show ?thesis by (simp add: ok_or_dead_def)
  qed
qed

lemma assign_ok:
  assumes cnt: "counted s" and bound: "cap s + 1 < 2 ^ 64"
  shows "ok_or_dead (assign x rhs s) (cap s + 1)"
proof (cases rule: data_of_cases [of s x])
  case 1
  then show ?thesis by (simp add: assign_def ok_or_dead_def)
next
  case (2 p)
  from copy_ctor_ok [OF cnt bound, of rhs] show ?thesis
    unfolding ok_or_dead_def
  proof
    assume "copy_ctor rhs s = Inl Dead_handle"
    then show "assign x rhs s = Inl Dead_handle \<or>
        (\<exists>s'. assign x rhs s = Inr s' \<and> counted s' \<and> cap s' \<le> cap s + 1)"
      using 2 by (simp add: assign_def)
  next
    assume "\<exists>s'. copy_ctor rhs s = Inr s' \<and> counted s' \<and> cap s' \<le> cap s + 1"
    then obtain s1 where s1: "copy_ctor rhs s = Inr s1" "counted s1" "cap s1 \<le> cap s + 1"
      by blast
    from swap_ok [OF s1(2), of x "length (handles s)"]
    show "assign x rhs s = Inl Dead_handle \<or>
        (\<exists>s'. assign x rhs s = Inr s' \<and> counted s' \<and> cap s' \<le> cap s + 1)"
      unfolding ok_or_dead_def
    proof
      assume "swap x (length (handles s)) s1 = Inl Dead_handle"
      then show ?thesis using 2 s1(1) by (simp add: assign_def)
    next
      assume "\<exists>s'. swap x (length (handles s)) s1 = Inr s' \<and> counted s' \<and> cap s' \<le> cap s1"
      then obtain s2 where s2: "swap x (length (handles s)) s1 = Inr s2" "counted s2" "cap s2 \<le> cap s1"
        by blast
      have eq: "assign x rhs s = dtor (length (handles s)) s2"
        using 2 s1(1) s2(1) by (simp add: assign_def)
      from dtor_ok [OF s2(2), of "length (handles s)"] show ?thesis
        unfolding ok_or_dead_def eq using s1(3) s2(3) by auto
    qed
  qed
qed

lemma data_of_all_ok:
  "data_of_all s xs = Inl Dead_handle \<or>
   (\<exists>ps. data_of_all s xs = Inr ps \<and> length ps = length xs
      \<and> (\<forall>a. Some a \<in> set ps \<longrightarrow> count_list (map handle_data (handles s)) (Some a) \<noteq> 0))"
proof (induction xs)
  case Nil
  then show ?case by simp
next
  case (Cons x xs)
  show ?case
  proof (cases rule: data_of_cases [of s x])
    case 1
    then show ?thesis by simp
  next
    case (2 p)
    from Cons.IH show ?thesis
    proof
      assume "data_of_all s xs = Inl Dead_handle"
      then show ?thesis using 2 by simp
    next
      assume "\<exists>ps. data_of_all s xs = Inr ps \<and> length ps = length xs
        \<and> (\<forall>a. Some a \<in> set ps \<longrightarrow> count_list (map handle_data (handles s)) (Some a) \<noteq> 0)"
      then obtain ps where ps: "data_of_all s xs = Inr ps" "length ps = length xs"
        "\<forall>a. Some a \<in> set ps \<longrightarrow> count_list (map handle_data (handles s)) (Some a) \<noteq> 0"
        by blast
      have "\<forall>a. Some a \<in> set (p # ps) \<longrightarrow> count_list (map handle_data (handles s)) (Some a) \<noteq> 0"
        using ps(3) data_of_count [of s x] 2 by auto
      then show ?thesis using 2 ps(1,2) by simp
    qed
  qed
qed

lemma cell_at_append:
  "cell_at (h @ [co]) b = (if b = length h then co else cell_at h b)"
  by (auto simp: cell_at_def nth_append)

lemma heap_refs_append: "heap_refs (h @ [co]) b = heap_refs h b + cell_refs b co"
  by (simp add: heap_refs_def)

lemma heap_size_append: "heap_size (h @ [co]) = heap_size h + cell_size co"
  by (simp add: heap_size_def)

lemma cell_at_length: "cell_at h (length h) = None"
  by (simp add: cell_at_def)

lemma logged_append:
  assumes "logged h f"
  shows "logged (h @ [Some c]) f"
proof -
  have "{b. b < length (h @ [Some c]) \<and> (h @ [Some c]) ! b = None} = {b. b < length h \<and> h ! b = None}"
    by (auto simp: nth_append less_Suc_eq)
  then show ?thesis using assms by (simp add: logged_def)
qed

lemma allocate_balanced:
  assumes bal: "balanced (ps @ X) h"
  shows "balanced (Some (length h) # X) (h @ [Some \<lparr>reference_count = 1, operands = ps\<rparr>])"
proof (rule balancedI)
  let ?c = "\<lparr>reference_count = 1, operands = ps\<rparr>"
  have fresh: "count_list (ps @ X) (Some (length h)) = 0" "heap_refs h (length h) = 0"
    using balanced_dead [OF bal cell_at_length] by auto
  {
    fix b c' assume b: "cell_at (h @ [Some ?c]) b = Some c'"
    show "unat (reference_count c')
            = count_list (Some (length h) # X) (Some b) + heap_refs (h @ [Some ?c]) b
          \<and> reference_count c' \<noteq> 0"
    proof (cases "b = length h")
      case True
      then have "c' = ?c" using b by (simp add: cell_at_append)
      then show ?thesis using True fresh by (simp add: heap_refs_append)
    next
      case False
      then have "cell_at h b = Some c'" using b by (simp add: cell_at_append)
      from balanced_live [OF bal this] show ?thesis using False by (simp add: heap_refs_append)
    qed
  next
    fix b assume b: "cell_at (h @ [Some ?c]) b = None"
    then have ne: "b \<noteq> length h" and "cell_at h b = None"
      by (auto simp: cell_at_append split: if_splits)
    from balanced_dead [OF bal this(2)]
    show "count_list (Some (length h) # X) (Some b) + heap_refs (h @ [Some ?c]) b = 0"
      using ne by (simp add: heap_refs_append)
  }
qed

lemma make_ok:
  assumes cnt: "counted s" and bound: "cap s + Suc (length xs) < 2 ^ 64"
  shows "ok_or_dead (heap_make xs s) (cap s + Suc (length xs))"
proof -
  let ?X = "map handle_data (handles s)"
  have bal: "balanced ?X (heap s)" and lg: "logged (heap s) (freed s)"
    using cnt by (simp_all add: counted_def)
  from data_of_all_ok [of s xs] show ?thesis
  proof
    assume "data_of_all s xs = Inl Dead_handle"
    then show ?thesis by (simp add: heap_make_def new_node_def ok_or_dead_def)
  next
    assume "\<exists>ps. data_of_all s xs = Inr ps \<and> length ps = length xs
      \<and> (\<forall>a. Some a \<in> set ps \<longrightarrow> count_list ?X (Some a) \<noteq> 0)"
    then obtain ps where ps: "data_of_all s xs = Inr ps" "length ps = length xs"
      "\<And>a. Some a \<in> set ps \<Longrightarrow> count_list ?X (Some a) \<noteq> 0"
      by blast
    have "length ?X + length ps + heap_size (heap s) < 2 ^ 64"
      using bound ps(2) by (simp add: cap_def)
    from increment_all_balanced [OF bal lg ps(3) this]
    obtain h' where h': "increment_all ps (heap s) = Inr h'" "balanced (ps @ ?X) h'"
        "logged h' (freed s)" "heap_size h' = heap_size (heap s)"
      by blast
    let ?c = "\<lparr>reference_count = 1, operands = ps\<rparr>"
    let ?h = "h' @ [Some ?c]"
    let ?s1 = "s\<lparr>heap := ?h\<rparr>"
    let ?s = "s\<lparr>heap := ?h, handles := handles s @ [Some (Some (length h'))]\<rparr>"
    have new: "new_node xs s = Inr (length h', ?s1)"
      using ps(1) h'(1) by (simp add: new_node_def)
    have "data_of (default_ctor ?s1) (length (handles ?s1)) = Inr None"
      by (simp add: data_of_def default_ctor_def)
    then have "remake (length (handles ?s1)) (length h') (default_ctor ?s1) = Inr ?s"
      by (simp add: remake_def release_def default_ctor_def)
    then have mk: "heap_make xs s = Inr ?s" using new by (simp add: heap_make_def)
    have "balanced (Some (length h') # ?X) ?h" using h'(2) by (rule allocate_balanced)
    then have "balanced (?X @ [Some (length h')]) ?h"
      using balanced_cong [of "?X @ [Some (length h')]" "Some (length h') # ?X" ?h] by simp
    moreover have "logged ?h (freed s)" using h'(3) by (rule logged_append)
    ultimately have "counted ?s" by (simp add: counted_def)
    moreover have "cap ?s \<le> cap s + Suc (length xs)"
      using h'(4) ps(2) by (simp add: cap_def heap_size_append)
    ultimately show ?thesis using mk by (simp add: ok_or_dead_def)
  qed
qed

lemma step_ok:
  assumes "counted s" and "cap s + weight x < 2 ^ 64"
  shows "ok_or_dead (step x s) (cap s + weight x)"
proof (cases x)
  case Default
  then show ?thesis using default_ctor_ok [OF assms(1)] by (simp add: ok_or_dead_def)
next
  case (Make xs)
  then show ?thesis using make_ok [OF assms(1), of xs] assms(2) by simp
next
  case (Copy y)
  then show ?thesis using copy_ctor_ok [OF assms(1), of y] assms(2) by simp
next
  case (Assign y z)
  then show ?thesis using assign_ok [OF assms(1), of y z] assms(2) by simp
next
  case (Swap y z)
  then show ?thesis using swap_ok [OF assms(1), of y z] by simp
next
  case (Destroy y)
  then show ?thesis using dtor_ok [OF assms(1), of y] by simp
qed

lemma run_ok:
  "counted s \<Longrightarrow> cap s + sum_list (map weight xs) < 2 ^ 64 \<Longrightarrow>
   ok_or_dead (run xs s) (cap s + sum_list (map weight xs))"
proof (induction xs arbitrary: s)
  case Nil
  then show ?case by (simp add: ok_or_dead_def)
next
  case (Cons x xs)
  have "ok_or_dead (step x s) (cap s + weight x)"
    using Cons.prems by (intro step_ok) auto
  then show ?case
    unfolding ok_or_dead_def
  proof
    assume "step x s = Inl Dead_handle"
    then show "run (x # xs) s = Inl Dead_handle \<or>
        (\<exists>s'. run (x # xs) s = Inr s' \<and> counted s'
           \<and> cap s' \<le> cap s + sum_list (map weight (x # xs)))"
      by simp
  next
    assume "\<exists>s'. step x s = Inr s' \<and> counted s' \<and> cap s' \<le> cap s + weight x"
    then obtain s' where s': "step x s = Inr s'" "counted s'" "cap s' \<le> cap s + weight x"
      by blast
    have "cap s' + sum_list (map weight xs) < 2 ^ 64" using s'(3) Cons.prems(2) by simp
    from Cons.IH [OF s'(2) this]
    have "run xs s' = Inl Dead_handle \<or>
        (\<exists>s''. run xs s' = Inr s'' \<and> counted s''
           \<and> cap s'' \<le> cap s' + sum_list (map weight xs))"
      by (simp add: ok_or_dead_def)
    then show "run (x # xs) s = Inl Dead_handle \<or>
        (\<exists>s'. run (x # xs) s = Inr s' \<and> counted s'
           \<and> cap s' \<le> cap s + sum_list (map weight (x # xs)))"
      using s'(1,3) by auto
  qed
qed

lemma counted_initial: "counted initial" and cap_initial: "cap initial = 0"
  by (simp_all add: counted_def initial_def balanced_def logged_def cell_at_def heap_refs_def
      cap_def heap_size_def)

lemma release_all_freed_mono:
  "release_all ps h f = Inr (h', f') \<Longrightarrow> set f \<subseteq> set f'"
proof (induction ps h f rule: release_all.induct)
  case (1 h f)
  then show ?case by simp
next
  case (2 ps h f)
  then show ?case by simp
next
  case (3 a ps h f)
  show ?case
  proof (cases "cell_at h a")
    case None
    then show ?thesis using "3.prems" by simp
  next
    case (Some c)
    show ?thesis
    proof (cases "reference_count c - 1 = 0")
      case True
      then have "set (a # f) \<subseteq> set f'" using "3.IH"(1) [OF Some True] "3.prems" Some by simp
      then show ?thesis by auto
    next
      case False
      then show ?thesis using "3.IH"(2) [OF Some False] "3.prems" Some by simp
    qed
  qed
qed

lemma distinct_count_list:
  "distinct xs \<Longrightarrow> count_list xs a = (if a \<in> set xs then 1 else 0)"
  by (induction xs) auto

lemma logged_dead:
  "logged h f \<Longrightarrow> a < length h \<Longrightarrow> cell_at h a = None \<Longrightarrow> count_list f a = 1"
  by (simp add: logged_def cell_at_def distinct_count_list)

lemma logged_live: "logged h f \<Longrightarrow> cell_at h a = Some c \<Longrightarrow> a \<notin> set f"
  by (auto simp: logged_def cell_at_def split: if_splits)

lemma logged_range: "logged h f \<Longrightarrow> length h \<le> a \<Longrightarrow> a \<notin> set f"
  by (auto simp: logged_def)

lemma logged_member: "logged h f \<Longrightarrow> a \<in> set f \<Longrightarrow> a < length h \<and> cell_at h a = None"
  by (auto simp: logged_def cell_at_def)

lemma copy_ctor_effect:
  assumes "data_of s x = Inr (Some a)" and "cell_at (heap s) a = Some c"
  shows "\<exists>s'. copy_ctor x s = Inr s'
           \<and> cell_at (heap s') a = Some (c\<lparr>reference_count := reference_count c + 1\<rparr>)"
  using assms by (simp add: copy_ctor_def cell_at_update)

lemma dtor_effect:
  assumes cnt: "counted s" and x: "data_of s x = Inr (Some a)" and c: "cell_at (heap s) a = Some c"
  shows "\<exists>s'. dtor x s = Inr s' \<and> given_up c a s'"
proof (cases "reference_count c = 1")
  case True
  let ?X = "map handle_data (handles s)"
  have bal: "balanced ?X (heap s)" and lg: "logged (heap s) (freed s)"
    using cnt by (simp_all add: counted_def)
  have "x < length ?X" and "?X ! x = Some a"
    using handle_nth [OF x] by auto
  then have "balanced (Some a # ?X[x := None]) (heap s)"
    by (rule balanced_detach [OF bal])
  then have "balanced ([Some a] @ ?X[x := None]) (heap s)" by simp
  from release_all_balanced [OF this lg]
  obtain h' f' where r: "release_all [Some a] (heap s) (freed s) = Inr (h', f')"
      and lg': "logged h' f'"
    by blast
  obtain s' where s': "dtor x s = Inr s'" and hs: "heap s' = h'" "freed s' = f'"
    using r x by (simp add: dtor_def release_def)
  have "release_all (operands c) ((heap s)[a := None]) (a # freed s) = Inr (h', f')"
    using r c True by simp
  from release_all_freed_mono [OF this] have "a \<in> set f'" by simp
  then have "cell_at h' a = None" "count_list f' a = 1"
    using lg' logged_member [of h' f' a] logged_dead [of h' f' a] by auto
  then show ?thesis using s' hs True by (simp add: given_up_def)
next
  case False
  then have ne: "reference_count c - 1 \<noteq> 0" by simp
  let ?c = "c\<lparr>reference_count := reference_count c - 1\<rparr>"
  have "release_all [Some a] (heap s) (freed s) = Inr ((heap s)[a := Some ?c], freed s)"
    using c ne by simp
  then have d: "dtor x s = Inr (s\<lparr>heap := (heap s)[a := Some ?c], handles := (handles s)[x := None]\<rparr>)"
    using x by (simp add: dtor_def release_def)
  have "logged (heap s) (freed s)" using cnt by (simp add: counted_def)
  then have "a \<notin> set (freed s)" using c by (rule logged_live)
  then show ?thesis using d False c by (simp add: cell_at_update given_up_def)
qed

lemma increment_target_unchanged:
  assumes "increment q h = Inr h'" and "q \<noteq> Some a"
  shows "cell_at h' a = cell_at h a"
proof (cases q)
  case None
  then show ?thesis using assms by simp
next
  case (Some b)
  then have ne: "b \<noteq> a" using assms(2) by simp
  obtain cb where cb: "cell_at h b = Some cb"
    using assms(1) Some by (cases "cell_at h b") auto
  then show ?thesis using assms(1) Some ne by (auto simp: cell_at_update)
qed

lemma assign_effect:
  assumes cnt: "counted s" and bound: "cap s + 1 < 2 ^ 64"
    and x: "data_of s x = Inr (Some a)" and y: "data_of s y = Inr q" and away: "q \<noteq> Some a"
    and c: "cell_at (heap s) a = Some c"
  shows "\<exists>s'. assign x y s = Inr s' \<and> given_up c a s'"
proof -
  let ?t = "length (handles s)"
  have xl: "x < ?t" and hx: "handles s ! x = Some (Some a)"
    using x by (auto simp: data_of_Inr)
  from copy_ctor_ok [OF cnt bound, of y] y
  obtain s1 where s1: "copy_ctor y s = Inr s1" and cnt1: "counted s1"
    by (cases q) (auto simp: ok_or_dead_def copy_ctor_def split: sum.splits option.splits)
  obtain h1 where h1: "increment q (heap s) = Inr h1"
      and s1_eq: "s1 = s\<lparr>heap := h1, handles := handles s @ [Some q]\<rparr>"
    using s1 y by (auto simp: copy_ctor_def split: sum.splits)
  have c1: "cell_at (heap s1) a = Some c"
    using increment_target_unchanged [OF h1 away] c s1_eq by simp
  have dx: "data_of s1 x = Inr (Some a)" and dt: "data_of s1 ?t = Inr q"
    using xl hx s1_eq by (simp_all add: data_of_def nth_append)
  let ?s2 = "s1\<lparr>handles := (handles s1)[x := Some q, ?t := Some (Some a)]\<rparr>"
  have sw: "swap x ?t s1 = Inr ?s2" using dx dt by (simp add: swap_def)
  have cnt2: "counted ?s2"
    using swap_ok [OF cnt1, of x ?t] sw by (simp add: ok_or_dead_def)
  have d2: "data_of ?s2 ?t = Inr (Some a)"
    using s1_eq by (simp add: data_of_def)
  have c2: "cell_at (heap ?s2) a = Some c" using c1 by simp
  have "assign x y s = dtor ?t ?s2"
    using x s1 sw by (simp add: assign_def)
  then show ?thesis using dtor_effect [OF cnt2 d2 c2] by simp
qed

lemma counted_well_counted:
  assumes cnt: "counted s"
  shows "well_counted s"
proof -
  let ?X = "map handle_data (handles s)"
  have bal: "balanced ?X (heap s)" and lg: "logged (heap s) (freed s)"
    using cnt by (simp_all add: counted_def)
  have 1: "\<forall>a c. cell_at (heap s) a = Some c \<longrightarrow>
          unat (reference_count c) = references s a \<and> 0 < references s a \<and> a \<notin> set (freed s)"
  proof (intro allI impI)
    fix a c assume c: "cell_at (heap s) a = Some c"
    from balanced_live [OF bal c] have "unat (reference_count c) = references s a"
      and "reference_count c \<noteq> 0"
      by (simp_all add: references_def)
    moreover from this have "0 < references s a" by (metis unat_gt_0)
    ultimately show "unat (reference_count c) = references s a \<and> 0 < references s a
        \<and> a \<notin> set (freed s)"
      using logged_live [OF lg c] by simp
  qed
  have 2: "\<forall>a. cell_at (heap s) a = None \<longrightarrow> references s a = 0"
    using balanced_dead [OF bal] by (simp add: references_def)
  have 3: "\<forall>a. a < length (heap s) \<longrightarrow> cell_at (heap s) a = None \<longrightarrow> count_list (freed s) a = 1"
    using logged_dead [OF lg] by simp
  have 4: "\<forall>a. length (heap s) \<le> a \<longrightarrow> a \<notin> set (freed s)"
    using logged_range [OF lg] by simp
  show ?thesis unfolding well_counted_def using 1 2 3 4 by (intro conjI)
qed

lemma copy_ctor_result:
  assumes cnt: "counted s" and bound: "cap s + 1 < 2 ^ 64" and x: "data_of s x = Inr p"
  shows "\<exists>s'. copy_ctor x s = Inr s' \<and> counted s' \<and> handles s' = handles s @ [Some p]
           \<and> freed s' = freed s \<and> increment p (heap s) = Inr (heap s')"
proof -
  from copy_ctor_ok [OF cnt bound, of x] x
  obtain s' where s': "copy_ctor x s = Inr s'" and cnt': "counted s'"
    by (cases p) (auto simp: ok_or_dead_def copy_ctor_def split: sum.splits option.splits)
  obtain h' where "increment p (heap s) = Inr h'"
      and "s' = s\<lparr>heap := h', handles := handles s @ [Some p]\<rparr>"
    using s' x by (auto simp: copy_ctor_def split: sum.splits)
  then show ?thesis using s' cnt' by simp
qed

lemma dtor_result:
  assumes cnt: "counted s" and x: "data_of s x = Inr p"
  shows "\<exists>s'. dtor x s = Inr s' \<and> counted s' \<and> handles s' = (handles s)[x := None]
           \<and> release_all [p] (heap s) (freed s) = Inr (heap s', freed s')"
proof -
  let ?X = "map handle_data (handles s)"
  have bal: "balanced ?X (heap s)" and lg: "logged (heap s) (freed s)"
    using cnt by (simp_all add: counted_def)
  have "x < length ?X" and "?X ! x = p"
    using handle_nth [OF x] by auto
  then have "balanced ([p] @ ?X[x := None]) (heap s)"
    using balanced_detach [OF bal, of x p] by simp
  from release_all_balanced [OF this lg]
  obtain h' f' where r: "release_all [p] (heap s) (freed s) = Inr (h', f')"
      and bal': "balanced (?X[x := None]) h'" and lg': "logged h' f'"
    by blast
  let ?s = "s\<lparr>heap := h', freed := f', handles := (handles s)[x := None]\<rparr>"
  have "dtor x s = Inr ?s" using x r by (simp add: dtor_def release_def)
  moreover have "counted ?s" using bal' lg' by (simp add: counted_def handle_data_update)
  ultimately show ?thesis using r by simp
qed

lemma increment_release_same:
  assumes bal: "balanced X h" and tgt: "\<And>a. p = Some a \<Longrightarrow> count_list X (Some a) \<noteq> 0"
    and inc: "increment p h = Inr h1"
  shows "release_all [p] h1 f = Inr (h, f)"
proof (cases p)
  case None
  then show ?thesis using inc by simp
next
  case (Some a)
  obtain c where c: "cell_at h a = Some c"
    using balanced_target [OF bal tgt [OF Some]] by auto
  have nz: "reference_count c \<noteq> 0" using balanced_live [OF bal c] by simp
  have alen: "a < length h" and ha: "h ! a = Some c"
    using c by (auto simp: cell_at_def split: if_splits)
  let ?c = "c\<lparr>reference_count := reference_count c + 1\<rparr>"
  have h1: "h1 = h[a := Some ?c]" using inc Some c by simp
  have c1: "cell_at h1 a = Some ?c" using h1 c by (simp add: cell_at_update)
  have restored: "h1[a := Some (?c\<lparr>reference_count := reference_count ?c - 1\<rparr>)] = h"
    using h1 ha alen by (simp add: list_update_same_conv)
  show ?thesis using Some c1 nz restored by simp
qed

lemma assign_result:
  assumes cnt: "counted s" and bound: "cap s + 1 < 2 ^ 64"
    and x: "data_of s x = Inr p" and y: "data_of s y = Inr q"
  shows "\<exists>s'. assign x y s = Inr s' \<and> counted s'
           \<and> data_of s' x = Inr q \<and> data_of s' y = Inr q
           \<and> (p = q \<longrightarrow> heap s' = heap s \<and> freed s' = freed s)"
proof -
  let ?t = "length (handles s)"
  have xl: "x < ?t" and hx: "handles s ! x = Some p"
    using x by (auto simp: data_of_Inr)
  have yl: "y < ?t" and hy: "handles s ! y = Some q"
    using y by (auto simp: data_of_Inr)
  from copy_ctor_result [OF cnt bound y]
  obtain s1 where s1: "copy_ctor y s = Inr s1" and cnt1: "counted s1"
      and hs1: "handles s1 = handles s @ [Some q]" and f1: "freed s1 = freed s"
      and inc: "increment q (heap s) = Inr (heap s1)"
    by blast
  have dx: "data_of s1 x = Inr p" and dt: "data_of s1 ?t = Inr q"
    using xl hx hs1 by (simp_all add: data_of_def nth_append)
  let ?s2 = "s1\<lparr>handles := (handles s1)[x := Some q, ?t := Some p]\<rparr>"
  have sw: "swap x ?t s1 = Inr ?s2" using dx dt by (simp add: swap_def)
  have cnt2: "counted ?s2"
    using swap_ok [OF cnt1, of x ?t] sw by (simp add: ok_or_dead_def)
  have d2: "data_of ?s2 ?t = Inr p"
    using hs1 by (simp add: data_of_def)
  from dtor_result [OF cnt2 d2]
  obtain s3 where s3: "dtor ?t ?s2 = Inr s3" and cnt3: "counted s3"
      and hs3: "handles s3 = (handles ?s2)[?t := None]"
      and rel: "release_all [p] (heap ?s2) (freed ?s2) = Inr (heap s3, freed s3)"
    by blast
  have as: "assign x y s = Inr s3"
    using x s1 sw s3 by (simp add: assign_def)
  have h3: "handles s3 = (handles s @ [Some q])[x := Some q, ?t := None]"
    using hs3 hs1 by simp
  have rx: "data_of s3 x = Inr q"
    using h3 xl by (simp add: data_of_def nth_append nth_list_update)
  have ry: "data_of s3 y = Inr q"
    using h3 yl hy by (cases "y = x") (simp_all add: data_of_def nth_append nth_list_update)
  have same: "heap s3 = heap s \<and> freed s3 = freed s" if "p = q"
  proof -
    have bal: "balanced (map handle_data (handles s)) (heap s)"
      using cnt by (simp add: counted_def)
    have "release_all [q] (heap s1) (freed s) = Inr (heap s, freed s)"
    proof (rule increment_release_same [OF bal _ inc])
      fix a assume "q = Some a"
      then show "count_list (map handle_data (handles s)) (Some a) \<noteq> 0"
        using data_of_count [of s y a] y by simp
    qed
    then show ?thesis using rel that f1 by simp
  qed
  show ?thesis using as cnt3 rx ry same by blast
qed


subsection \<open>Claim\<close>

text \<open>
  C3. For every sequence of operations on handles (construction, \<^verbatim>\<open>make\<close>, copy
  construction, assignment, \<^verbatim>\<open>swap\<close>, destruction), started with nothing allocated and
  creating fewer \<^verbatim>\<open>Expression\<close> objects than a count can hold: no operation ever
  dereferences a pointer to a deleted node (so no node is deleted twice), and in every
  state reached
  \<^item> the count of a living node is the number of handles and operand elements that point
    to it, that number is not zero, and the node is not in the log of deletions;
  \<^item> nothing points to a deleted node, and a deleted node is in the log exactly once;
  \<^item> every handle with a non-null pointer points to a living node; copy-constructing
    from it adds one to the count of the node, and the new handle and the old one both
    point to the node, in a state where the counts are again the numbers of references;
  \<^item> destroying it, or assigning to it from a handle that points elsewhere, deletes the
    node when its count is one, and otherwise subtracts one from the count and does not
    delete the node; the destroyed handle is gone and the counts are again the numbers of
    references;
  \<^item> assigning to any living handle from any living handle succeeds; afterwards the
    target and the source both hold the pointer the source held and the counts are again
    the numbers of references; when the target already held that pointer (assignment
    between values that share a node, or of a value to itself), the heap and the log are
    unchanged, so the shared node stays alive with the count it had.
  A run ends in \<open>Dead_handle\<close> only when the client names a variable that is not alive.
\<close>

theorem reference_count_lifecycle:
  assumes "sum_list (map weight xs) + 1 < 2 ^ 64"
  shows "run xs initial \<noteq> Inl Dangling_pointer
    \<and> (\<forall>s. run xs initial = Inr s \<longrightarrow>
         (\<forall>a c. cell_at (heap s) a = Some c \<longrightarrow>
            unat (reference_count c) = references s a \<and> 0 < references s a \<and> a \<notin> set (freed s))
       \<and> (\<forall>a. cell_at (heap s) a = None \<longrightarrow> references s a = 0)
       \<and> (\<forall>a. a < length (heap s) \<longrightarrow> cell_at (heap s) a = None \<longrightarrow> count_list (freed s) a = 1)
       \<and> (\<forall>a. length (heap s) \<le> a \<longrightarrow> a \<notin> set (freed s))
       \<and> (\<forall>x a. data_of s x = Inr (Some a) \<longrightarrow>
            (\<exists>c. cell_at (heap s) a = Some c
              \<and> (\<exists>s'. copy_ctor x s = Inr s'
                    \<and> cell_at (heap s') a = Some (c\<lparr>reference_count := reference_count c + 1\<rparr>)
                    \<and> data_of s' x = Inr (Some a)
                    \<and> data_of s' (length (handles s)) = Inr (Some a)
                    \<and> well_counted s')
              \<and> (\<exists>s'. dtor x s = Inr s' \<and> given_up c a s'
                    \<and> data_of s' x = Inl Dead_handle \<and> well_counted s')
              \<and> (\<forall>y q. data_of s y = Inr q \<longrightarrow> q \<noteq> Some a \<longrightarrow>
                    (\<exists>s'. assign x y s = Inr s' \<and> given_up c a s'))))
       \<and> (\<forall>x y p q. data_of s x = Inr p \<longrightarrow> data_of s y = Inr q \<longrightarrow>
            (\<exists>s'. assign x y s = Inr s'
              \<and> data_of s' x = Inr q \<and> data_of s' y = Inr q
              \<and> well_counted s'
              \<and> (p = q \<longrightarrow> heap s' = heap s \<and> freed s' = freed s))))"
proof -
  have ok: "run xs initial = Inl Dead_handle
      \<or> (\<exists>s'. run xs initial = Inr s' \<and> counted s' \<and> cap s' \<le> sum_list (map weight xs))"
    using assms run_ok [of initial xs] by (auto simp: counted_initial cap_initial ok_or_dead_def)
  then have "run xs initial \<noteq> Inl Dangling_pointer" by auto
  moreover have "\<forall>s. run xs initial = Inr s \<longrightarrow>
         (\<forall>a c. cell_at (heap s) a = Some c \<longrightarrow>
            unat (reference_count c) = references s a \<and> 0 < references s a \<and> a \<notin> set (freed s))
       \<and> (\<forall>a. cell_at (heap s) a = None \<longrightarrow> references s a = 0)
       \<and> (\<forall>a. a < length (heap s) \<longrightarrow> cell_at (heap s) a = None \<longrightarrow> count_list (freed s) a = 1)
       \<and> (\<forall>a. length (heap s) \<le> a \<longrightarrow> a \<notin> set (freed s))
       \<and> (\<forall>x a. data_of s x = Inr (Some a) \<longrightarrow>
            (\<exists>c. cell_at (heap s) a = Some c
              \<and> (\<exists>s'. copy_ctor x s = Inr s'
                    \<and> cell_at (heap s') a = Some (c\<lparr>reference_count := reference_count c + 1\<rparr>)
                    \<and> data_of s' x = Inr (Some a)
                    \<and> data_of s' (length (handles s)) = Inr (Some a)
                    \<and> well_counted s')
              \<and> (\<exists>s'. dtor x s = Inr s' \<and> given_up c a s'
                    \<and> data_of s' x = Inl Dead_handle \<and> well_counted s')
              \<and> (\<forall>y q. data_of s y = Inr q \<longrightarrow> q \<noteq> Some a \<longrightarrow>
                    (\<exists>s'. assign x y s = Inr s' \<and> given_up c a s'))))
       \<and> (\<forall>x y p q. data_of s x = Inr p \<longrightarrow> data_of s y = Inr q \<longrightarrow>
            (\<exists>s'. assign x y s = Inr s'
              \<and> data_of s' x = Inr q \<and> data_of s' y = Inr q
              \<and> well_counted s'
              \<and> (p = q \<longrightarrow> heap s' = heap s \<and> freed s' = freed s)))"
  proof (intro allI impI)
    fix s assume "run xs initial = Inr s"
    then have cnt: "counted s" and "cap s \<le> sum_list (map weight xs)" using ok by auto
    then have bound: "cap s + 1 < 2 ^ 64" using assms by simp
    let ?X = "map handle_data (handles s)"
    have bal: "balanced ?X (heap s)" and lg: "logged (heap s) (freed s)"
      using cnt by (simp_all add: counted_def)
    have wc: "well_counted s" using cnt by (rule counted_well_counted)
    have 1: "\<forall>a c. cell_at (heap s) a = Some c \<longrightarrow>
            unat (reference_count c) = references s a \<and> 0 < references s a \<and> a \<notin> set (freed s)"
      using wc unfolding well_counted_def by (rule conjunct1)
    have 2: "\<forall>a. cell_at (heap s) a = None \<longrightarrow> references s a = 0"
      using wc unfolding well_counted_def by (elim conjE)
    have 3: "\<forall>a. a < length (heap s) \<longrightarrow> cell_at (heap s) a = None \<longrightarrow> count_list (freed s) a = 1"
      using wc unfolding well_counted_def by (elim conjE)
    have 4: "\<forall>a. length (heap s) \<le> a \<longrightarrow> a \<notin> set (freed s)"
      using wc unfolding well_counted_def by (elim conjE)
    have 5: "\<forall>x a. data_of s x = Inr (Some a) \<longrightarrow>
            (\<exists>c. cell_at (heap s) a = Some c
              \<and> (\<exists>s'. copy_ctor x s = Inr s'
                    \<and> cell_at (heap s') a = Some (c\<lparr>reference_count := reference_count c + 1\<rparr>)
                    \<and> data_of s' x = Inr (Some a)
                    \<and> data_of s' (length (handles s)) = Inr (Some a)
                    \<and> well_counted s')
              \<and> (\<exists>s'. dtor x s = Inr s' \<and> given_up c a s'
                    \<and> data_of s' x = Inl Dead_handle \<and> well_counted s')
              \<and> (\<forall>y q. data_of s y = Inr q \<longrightarrow> q \<noteq> Some a \<longrightarrow>
                    (\<exists>s'. assign x y s = Inr s' \<and> given_up c a s')))"
    proof (intro allI impI)
      fix x a assume x: "data_of s x = Inr (Some a)"
      obtain c where c: "cell_at (heap s) a = Some c"
        using balanced_target [OF bal data_of_count [OF x]] by auto
      have xl: "x < length (handles s)" and hx: "handles s ! x = Some (Some a)"
        using x by (auto simp: data_of_Inr)
      from copy_ctor_result [OF cnt bound x]
      obtain s1 where s1: "copy_ctor x s = Inr s1" and cnt1: "counted s1"
          and hs1: "handles s1 = handles s @ [Some (Some a)]"
        by blast
      have "cell_at (heap s1) a = Some (c\<lparr>reference_count := reference_count c + 1\<rparr>)"
        using copy_ctor_effect [OF x c] s1 by simp
      moreover have "data_of s1 x = Inr (Some a)"
        and "data_of s1 (length (handles s)) = Inr (Some a)"
        using hs1 xl hx by (simp_all add: data_of_def nth_append)
      moreover have "well_counted s1" using cnt1 by (rule counted_well_counted)
      ultimately have copy: "\<exists>s'. copy_ctor x s = Inr s'
                    \<and> cell_at (heap s') a = Some (c\<lparr>reference_count := reference_count c + 1\<rparr>)
                    \<and> data_of s' x = Inr (Some a)
                    \<and> data_of s' (length (handles s)) = Inr (Some a)
                    \<and> well_counted s'"
        using s1 by blast
      from dtor_result [OF cnt x]
      obtain s2 where s2: "dtor x s = Inr s2" and cnt2: "counted s2"
          and hs2: "handles s2 = (handles s)[x := None]"
        by blast
      have "given_up c a s2" using dtor_effect [OF cnt x c] s2 by simp
      moreover have "data_of s2 x = Inl Dead_handle" using hs2 xl by (simp add: data_of_def)
      moreover have "well_counted s2" using cnt2 by (rule counted_well_counted)
      ultimately have destroy: "\<exists>s'. dtor x s = Inr s' \<and> given_up c a s'
                    \<and> data_of s' x = Inl Dead_handle \<and> well_counted s'"
        using s2 by blast
      have away: "\<forall>y q. data_of s y = Inr q \<longrightarrow> q \<noteq> Some a \<longrightarrow>
                    (\<exists>s'. assign x y s = Inr s' \<and> given_up c a s')"
        using assign_effect [OF cnt bound x _ _ c] by blast
      show "(\<exists>c. cell_at (heap s) a = Some c
              \<and> (\<exists>s'. copy_ctor x s = Inr s'
                    \<and> cell_at (heap s') a = Some (c\<lparr>reference_count := reference_count c + 1\<rparr>)
                    \<and> data_of s' x = Inr (Some a)
                    \<and> data_of s' (length (handles s)) = Inr (Some a)
                    \<and> well_counted s')
              \<and> (\<exists>s'. dtor x s = Inr s' \<and> given_up c a s'
                    \<and> data_of s' x = Inl Dead_handle \<and> well_counted s')
              \<and> (\<forall>y q. data_of s y = Inr q \<longrightarrow> q \<noteq> Some a \<longrightarrow>
                    (\<exists>s'. assign x y s = Inr s' \<and> given_up c a s')))"
        using c copy destroy away by blast
    qed
    have 6: "\<forall>x y p q. data_of s x = Inr p \<longrightarrow> data_of s y = Inr q \<longrightarrow>
            (\<exists>s'. assign x y s = Inr s'
              \<and> data_of s' x = Inr q \<and> data_of s' y = Inr q
              \<and> well_counted s'
              \<and> (p = q \<longrightarrow> heap s' = heap s \<and> freed s' = freed s))"
    proof (intro allI impI)
      fix x y p q assume x: "data_of s x = Inr p" and y: "data_of s y = Inr q"
      from assign_result [OF cnt bound x y]
      obtain s' where "assign x y s = Inr s'" and "counted s'"
          and "data_of s' x = Inr q" and "data_of s' y = Inr q"
          and "p = q \<longrightarrow> heap s' = heap s \<and> freed s' = freed s"
        by blast
      moreover from this(2) have "well_counted s'" by (rule counted_well_counted)
      ultimately show "\<exists>s'. assign x y s = Inr s'
              \<and> data_of s' x = Inr q \<and> data_of s' y = Inr q
              \<and> well_counted s'
              \<and> (p = q \<longrightarrow> heap s' = heap s \<and> freed s' = freed s)"
        by blast
    qed
    show "
         (\<forall>a c. cell_at (heap s) a = Some c \<longrightarrow>
            unat (reference_count c) = references s a \<and> 0 < references s a \<and> a \<notin> set (freed s))
       \<and> (\<forall>a. cell_at (heap s) a = None \<longrightarrow> references s a = 0)
       \<and> (\<forall>a. a < length (heap s) \<longrightarrow> cell_at (heap s) a = None \<longrightarrow> count_list (freed s) a = 1)
       \<and> (\<forall>a. length (heap s) \<le> a \<longrightarrow> a \<notin> set (freed s))
       \<and> (\<forall>x a. data_of s x = Inr (Some a) \<longrightarrow>
            (\<exists>c. cell_at (heap s) a = Some c
              \<and> (\<exists>s'. copy_ctor x s = Inr s'
                    \<and> cell_at (heap s') a = Some (c\<lparr>reference_count := reference_count c + 1\<rparr>)
                    \<and> data_of s' x = Inr (Some a)
                    \<and> data_of s' (length (handles s)) = Inr (Some a)
                    \<and> well_counted s')
              \<and> (\<exists>s'. dtor x s = Inr s' \<and> given_up c a s'
                    \<and> data_of s' x = Inl Dead_handle \<and> well_counted s')
              \<and> (\<forall>y q. data_of s y = Inr q \<longrightarrow> q \<noteq> Some a \<longrightarrow>
                    (\<exists>s'. assign x y s = Inr s' \<and> given_up c a s'))))
       \<and> (\<forall>x y p q. data_of s x = Inr p \<longrightarrow> data_of s y = Inr q \<longrightarrow>
            (\<exists>s'. assign x y s = Inr s'
              \<and> data_of s' x = Inr q \<and> data_of s' y = Inr q
              \<and> well_counted s'
              \<and> (p = q \<longrightarrow> heap s' = heap s \<and> freed s' = freed s)))"
      using 1 2 3 4 5 6 by (intro conjI)
  qed
  ultimately show ?thesis by (rule conjI)
qed

text \<open>
  The sample client runs without a fault; in its final state the \<^verbatim>\<open>And\<close> node at address
  \<open>1\<close> is referenced once, by handle \<open>3\<close>. Destroying that handle deletes the node;
  assigning the handle to itself changes neither the heap nor the log and leaves the
  handle on the node; assigning to it from the empty handle \<open>5\<close> of one more \<open>Default\<close>
  leaves both nodes deleted, each logged once.
\<close>

theorem reference_count_lifecycle_witness:
  "sum_list (map weight sample_run) + 1 < 2 ^ 64
   \<and> run sample_run initial = Inr sample_state
   \<and> references sample_state 1 = 1
   \<and> (\<exists>s'. dtor 3 sample_state = Inr s' \<and> cell_at (heap s') 1 = None
          \<and> count_list (freed s') 1 = 1)
   \<and> (\<exists>s'. assign 3 3 sample_state = Inr s' \<and> data_of s' 3 = Inr (Some 1)
          \<and> heap s' = heap sample_state \<and> freed s' = freed sample_state)
   \<and> run (sample_run @ [Default, Assign 3 5]) initial
       = Inr \<lparr>heap = [None, None],
              handles = [None, None, None, Some None, None, Some None, None],
              freed = [0, 1]\<rparr>"
proof -
  have w: "sum_list (map weight sample_run) + 1 < 2 ^ 64"
    by (simp add: sample_run_def)
  have r: "run sample_run initial = Inr sample_state"
    by (simp add: sample_run_def sample_state_def initial_def heap_make_def new_node_def
        default_ctor_def remake_def release_def data_of_def copy_ctor_def assign_def swap_def
        dtor_def cell_at_def)
  have r': "run (sample_run @ [Default, Assign 3 5]) initial
       = Inr \<lparr>heap = [None, None],
              handles = [None, None, None, Some None, None, Some None, None],
              freed = [0, 1]\<rparr>"
    by (simp add: sample_run_def initial_def heap_make_def new_node_def
        default_ctor_def remake_def release_def data_of_def copy_ctor_def assign_def swap_def
        dtor_def cell_at_def)
  have d: "data_of sample_state 3 = Inr (Some 1)"
    by (simp add: sample_state_def data_of_def)
  have c: "cell_at (heap sample_state) 1 = Some \<lparr>reference_count = 1, operands = [Some 0]\<rparr>"
    by (simp add: sample_state_def cell_at_def)
  note all = reference_count_lifecycle [OF w, THEN conjunct2, rule_format, OF r]
  have "unat (reference_count \<lparr>reference_count = 1, operands = [Some 0]\<rparr>)
          = references sample_state 1"
    using all [THEN conjunct1, rule_format, OF c] by simp
  then have n: "references sample_state 1 = 1" by simp
  obtain c' where c': "cell_at (heap sample_state) 1 = Some c'"
      and k: "\<exists>s'. dtor 3 sample_state = Inr s' \<and> given_up c' 1 s'"
    using all [THEN conjunct2, THEN conjunct2, THEN conjunct2, THEN conjunct2, THEN conjunct1,
        rule_format, OF d]
    by blast
  have "c' = \<lparr>reference_count = 1, operands = [Some 0]\<rparr>" using c c' by simp
  then have "reference_count c' = 1" by simp
  then have g: "\<exists>s'. dtor 3 sample_state = Inr s' \<and> cell_at (heap s') 1 = None
          \<and> count_list (freed s') 1 = 1"
    using k by (simp add: given_up_def)
  have self: "\<exists>s'. assign 3 3 sample_state = Inr s' \<and> data_of s' 3 = Inr (Some 1)
          \<and> heap s' = heap sample_state \<and> freed s' = freed sample_state"
    using all [THEN conjunct2, THEN conjunct2, THEN conjunct2, THEN conjunct2, THEN conjunct2,
        rule_format, OF d d]
    by blast
  show ?thesis using w r r' n g self by simp
qed

end
